theory Spec2Isabelle
  imports Complex_Main "HOL-Library.Product_Lexorder" "HOL-Library.Multiset"
begin

section \<open>Gossip spreading-time estimators of gossip\_spreading\_util.py\<close>

text \<open>
  The four estimators \<^verbatim>\<open>EstimateSynchronousGossipTime\<close>,
  \<^verbatim>\<open>FastEstimateSynchronousGossipTime\<close>, \<^verbatim>\<open>EstimateAsynchronousGossipTime\<close> and
  \<^verbatim>\<open>FastEstimateAsynchronousGossipTime\<close> are embedded as functions that return
  \<open>None\<close> when the \<^verbatim>\<open>while True\<close> loop never leaves, \<open>Some (Inl e)\<close> when Python
  raises \<open>e\<close>, and \<open>Some (Inr r)\<close> when the function returns \<open>r\<close>.

  Conventions of the embedding:
  \<^item> node identifiers are Python integers (\<open>int\<close>); \<^verbatim>\<open>neighbor_list[i]\<close> follows
    Python's indexing, negative indices included;
  \<^item> a Python \<^verbatim>\<open>set\<close> of nodes is a duplicate-free list of its elements. The order in
    which a \<^verbatim>\<open>for\<close> loop visits a set is a property of CPython's hash table; it is a
    parameter of the embedding (the machine, below);
  \<^item> \<^verbatim>\<open>failure_probability\<close>, \<^verbatim>\<open>end_criteria\<close>, the uniform draws and the finite event
    times are real numbers (every floating-point number is one), and event times are
    extended by \<open>+\<infinity>\<close>. The floating-point operations of the source, which round, are
    parameters of the embedding as well: the product in the threshold test, the sum
    that gives the time of a new event, and the logarithm and quotient of
    \<^verbatim>\<open>PoissonSample\<close>. The comparisons of the source are exact;
  \<^item> the process-wide generator \<^verbatim>\<open>np.random\<close> is a parameter: a state that every
    draw reads and replaces. Every draw is also told which call it is (its call site, the
    round or event time, and the node it is made for). A generator that ignores this
    position is a plain sequence of draws, as \<^verbatim>\<open>np.random\<close> is; a generator that
    ignores its state gives the same decision to the same logical choice.
\<close>

subsection \<open>Errors, loops, indexing, sets\<close>

datatype py_error = ValueError | IndexError

datatype ('r, 'st) outcome = Raise py_error | Return 'r | Continue 'st

text \<open>
  \<^verbatim>\<open>while True:\<close> around a loop body. The body either raises, or executes a
  \<^verbatim>\<open>return\<close>, or reaches its end with a new state, from which the loop runs the body
  again. A loop that never leaves has the value \<open>None\<close>.
\<close>

partial_function (option) while_True ::
  "('st \<Rightarrow> ('r, 'st) outcome) \<Rightarrow> 'st \<Rightarrow> (py_error + 'r) option" where
  "while_True body st =
     (case body st of
        Raise e \<Rightarrow> Some (Inl e)
      | Return r \<Rightarrow> Some (Inr r)
      | Continue st' \<Rightarrow> while_True body st')"

text \<open>
  The state in which the loop body is entered for the \<open>(k + 1)\<close>-th time, if the first
  \<open>k\<close> executions of the body have all reached its end.
\<close>

fun iterations :: "('st \<Rightarrow> ('r, 'st) outcome) \<Rightarrow> nat \<Rightarrow> 'st \<Rightarrow> 'st option" where
  "iterations body 0 st = Some st"
| "iterations body (Suc k) st =
     (case iterations body k st of
        None \<Rightarrow> None
      | Some st' \<Rightarrow> (case body st' of Continue st'' \<Rightarrow> Some st'' | _ \<Rightarrow> None))"

definition py_index :: "'a list \<Rightarrow> int \<Rightarrow> py_error + 'a" where
  "py_index xs i =
     (let n = int (length xs)
      in if 0 \<le> i \<and> i < n then Inr (xs ! nat i)
         else if - n \<le> i \<and> i < 0 then Inr (xs ! nat (n + i))
         else Inl IndexError)"

definition set_add :: "int \<Rightarrow> int list \<Rightarrow> int list" where
  "set_add x S = (if x \<in> set S then S else S @ [x])"

definition set_union :: "int list \<Rightarrow> int list \<Rightarrow> int list" where
  "set_union S T = fold set_add T S"

definition set_difference :: "int list \<Rightarrow> int list \<Rightarrow> int list" where
  "set_difference S T = filter (\<lambda>x. x \<notin> set T) S"

definition issubset :: "int list \<Rightarrow> int list \<Rightarrow> bool" where
  "issubset xs S = list_all (\<lambda>x. x \<in> set S) xs"

subsection \<open>Event times\<close>

datatype ftime = Fin real | PInf

instantiation ftime :: linorder
begin

fun less_eq_ftime :: "ftime \<Rightarrow> ftime \<Rightarrow> bool" where
  "less_eq_ftime (Fin a) (Fin b) = (a \<le> b)"
| "less_eq_ftime _ PInf = True"
| "less_eq_ftime PInf (Fin b) = False"

definition less_ftime :: "ftime \<Rightarrow> ftime \<Rightarrow> bool" where
  "less_ftime a b = (a \<le> b \<and> \<not> b \<le> a)"

instance
proof
  fix x y z :: ftime
  show "(x < y) = (x \<le> y \<and> \<not> y \<le> x)" by (simp add: less_ftime_def)
  show "x \<le> x" by (cases x) simp_all
  show "x \<le> y \<Longrightarrow> y \<le> z \<Longrightarrow> x \<le> z" by (cases x; cases y; cases z) simp_all
  show "x \<le> y \<Longrightarrow> y \<le> x \<Longrightarrow> x = y" by (cases x; cases y) simp_all
  show "x \<le> y \<or> y \<le> x" by (cases x; cases y) auto
qed

end

text \<open>The sum of two times when nothing is rounded.\<close>

fun time_add :: "ftime \<Rightarrow> ftime \<Rightarrow> ftime" where
  "time_add (Fin a) (Fin b) = Fin (a + b)"
| "time_add _ _ = PInf"

subsection \<open>The machine\<close>

text \<open>
  What the source leaves to the floating-point unit, to numpy and to the Python runtime:
  \<^item> \<open>fmul M c n\<close> is the value of \<^verbatim>\<open>end_criteria * len(neighbor_list)\<close> (in the fast
    asynchronous spreader \<^verbatim>\<open>end_criteria * number_of_nodes\<close>), the rounded product of a
    float and an integer;
  \<^item> \<open>fadd M t d\<close> is the value of \<^verbatim>\<open>current_time + PoissonSample(1.0)\<close>, the rounded
    sum of two floats;
  \<^item> \<open>neg_log_div M u rate\<close> is the value of \<^verbatim>\<open>-np.log(u) / rate\<close>;
  \<^item> \<open>slot M t x\<close> is the place of the element \<open>x\<close> in the iteration of round \<open>t\<close> over
    a set: the \<^verbatim>\<open>for\<close> loop of a round visits the elements in the order of their slots.
    Every order of visiting the elements of a set is given by some choice of slots.

  The properties below hold for every machine, except where a hypothesis on the machine
  is stated.
\<close>

record machine =
  fmul :: "real \<Rightarrow> nat \<Rightarrow> real"
  fadd :: "ftime \<Rightarrow> ftime \<Rightarrow> ftime"
  neg_log_div :: "real \<Rightarrow> real \<Rightarrow> ftime"
  slot :: "nat \<Rightarrow> int \<Rightarrow> nat"

definition set_order :: "machine \<Rightarrow> nat \<Rightarrow> int list \<Rightarrow> int list" where
  "set_order M t S = sort_key (slot M t) S"

text \<open>
  The machine that does not round and visits a set in the order of insertion. Numpy's
  logarithm of \<open>0.0\<close> is \<open>-\<infinity>\<close>, so the sample is \<open>+\<infinity>\<close> there. The concrete runs below
  are made on this machine; their products and sums are sums and products of small
  integers and of \<open>1/2\<close>, which IEEE double arithmetic computes without rounding, and
  their sets hold the nodes \<open>0\<close>, \<open>1\<close>, \<open>2\<close>, inserted in an order in which CPython also
  visits them.
\<close>

definition ideal_machine :: machine where
  "ideal_machine =
     \<lparr> fmul = (\<lambda>c n. c * real n),
       fadd = time_add,
       neg_log_div = (\<lambda>u rate. if u = 0 then PInf else Fin (- ln u / rate)),
       slot = (\<lambda>t x. 0) \<rparr>"

text \<open>
  A product that keeps the sign: a non-positive \<^verbatim>\<open>end_criteria\<close> gives a non-positive
  threshold, as a rounded product does.
\<close>

definition sign_kept :: "machine \<Rightarrow> bool" where
  "sign_kept M = (\<forall>c n. c \<le> 0 \<longrightarrow> fmul M c n \<le> 0)"

subsection \<open>The random source\<close>

text \<open>
  The three places where the spreaders call \<^verbatim>\<open>np.random.rand()\<close>: the failure draw of a
  push, and, inside \<^verbatim>\<open>PoissonSample\<close>, the delay to the next activation of the acting node
  and the delay to the first activation of a node (the source, or a newly infected node).
  \<open>rand G site t n s\<close> is the draw made at this site, at round or time \<open>t\<close>, for node \<open>n\<close>,
  in generator state \<open>s\<close>, together with the next state; \<open>choice G t n s\<close> is the index
  drawn by \<^verbatim>\<open>np.random.choice\<close> for the push of node \<open>n\<close>.
\<close>

datatype call_site = PushDraw | OwnDelay | FirstDelay

record ('s, 't) random_source =
  rand :: "call_site \<Rightarrow> 't \<Rightarrow> int \<Rightarrow> 's \<Rightarrow> real \<times> 's"
  choice :: "'t \<Rightarrow> int \<Rightarrow> 's \<Rightarrow> nat \<times> 's"

text \<open>
  \<^verbatim>\<open>np.random.choice(a)\<close> raises \<^verbatim>\<open>ValueError\<close> on an empty list and otherwise
  returns the element at a drawn index.
\<close>

definition random_choice ::
  "('s, 't) random_source \<Rightarrow> 't \<Rightarrow> int \<Rightarrow> int list \<Rightarrow> 's \<Rightarrow> py_error + (int \<times> 's)" where
  "random_choice G t a xs s =
     (if xs = [] then Inl ValueError
      else (let (k, s') = choice G t a s in Inr (xs ! (k mod length xs), s')))"

text \<open>
  Two kinds of sources: one that hands out a fixed sequence of draws in the order of the
  calls, and one that gives every logical choice its own fixed decision. The draws of
  \<^verbatim>\<open>np.random.rand()\<close> lie in \<open>[0, 1)\<close>.
\<close>

definition sequence_source :: "(nat \<Rightarrow> real) \<Rightarrow> (nat \<Rightarrow> nat) \<Rightarrow> (nat, 't) random_source" where
  "sequence_source us ks =
     \<lparr> rand = (\<lambda>c t n i. (us i, Suc i)), choice = (\<lambda>t n i. (ks i, Suc i)) \<rparr>"

definition decision_source ::
  "(call_site \<Rightarrow> 't \<Rightarrow> int \<Rightarrow> real) \<Rightarrow> ('t \<Rightarrow> int \<Rightarrow> nat) \<Rightarrow> ('s, 't) random_source" where
  "decision_source U K =
     \<lparr> rand = (\<lambda>c t n s. (U c t n, s)), choice = (\<lambda>t n s. (K t n, s)) \<rparr>"

definition unit_draws :: "('s, 't) random_source \<Rightarrow> bool" where
  "unit_draws G = (\<forall>c t n s. 0 \<le> fst (rand G c t n s) \<and> fst (rand G c t n s) < 1)"

subsection \<open>Synchronous gossip\<close>

text \<open>
  The \<^verbatim>\<open>for active_node in infected_node_set\<close> loop of a round of
  \<^verbatim>\<open>EstimateSynchronousGossipTime\<close>: the nodes still to be visited, the set
  \<^verbatim>\<open>newly_infected_node_set\<close> and the generator state. The infected set is not touched
  inside the loop.
\<close>

fun sync_round ::
  "('s, nat) random_source \<Rightarrow> int list list \<Rightarrow> real \<Rightarrow> nat \<Rightarrow> int list \<Rightarrow> int list \<Rightarrow> 's
     \<Rightarrow> py_error + (int list \<times> 's)" where
  "sync_round G nl p t [] newly s = Inr (newly, s)"
| "sync_round G nl p t (a # as) newly s =
     (let (u, s1) = rand G PushDraw t a s in
      if u \<ge> p then
        (case py_index nl a of
           Inl e \<Rightarrow> Inl e
         | Inr nb \<Rightarrow>
             (case random_choice G t a nb s1 of
                Inl e \<Rightarrow> Inl e
              | Inr (chosen, s2) \<Rightarrow> sync_round G nl p t as (set_add chosen newly) s2))
      else sync_round G nl p t as newly s1)"

text \<open>
  The body of \<^verbatim>\<open>while True\<close>: a round over the infected set in the order of the machine,
  the union with the newly infected nodes, the increment of \<^verbatim>\<open>t\<close> and the threshold test
  against the product of \<^verbatim>\<open>end_criteria\<close> and \<^verbatim>\<open>len(neighbor_list)\<close>.
\<close>

definition sync_iter ::
  "machine \<Rightarrow> ('s, nat) random_source \<Rightarrow> int list list \<Rightarrow> real \<Rightarrow> real \<Rightarrow> nat \<Rightarrow> int list \<Rightarrow> 's
     \<Rightarrow> (nat, nat \<times> int list \<times> 's) outcome" where
  "sync_iter M G nl p c t infected s =
     (case sync_round G nl p t (set_order M t infected) [] s of
        Inl e \<Rightarrow> Raise e
      | Inr (newly, s') \<Rightarrow>
          (let infected' = set_union infected newly; t' = t + 1
           in if real (length infected') \<ge> fmul M c (length nl) then Return t'
              else Continue (t', infected', s')))"

definition sync_loop ::
  "machine \<Rightarrow> ('s, nat) random_source \<Rightarrow> int list list \<Rightarrow> real \<Rightarrow> real \<Rightarrow> nat \<Rightarrow> int list \<Rightarrow> 's
     \<Rightarrow> (py_error + nat) option" where
  "sync_loop M G nl p c t infected s =
     while_True (\<lambda>(t, infected, s). sync_iter M G nl p c t infected s) (t, infected, s)"

definition EstimateSynchronousGossipTime ::
  "machine \<Rightarrow> ('s, nat) random_source \<Rightarrow> int \<Rightarrow> nat \<Rightarrow> int list list \<Rightarrow> real \<Rightarrow> real \<Rightarrow> 's
     \<Rightarrow> (py_error + nat) option" where
  "EstimateSynchronousGossipTime M G source_node number_of_nodes neighbor_list
       failure_probability end_criteria s =
     sync_loop M G neighbor_list failure_probability end_criteria 0 [source_node] s"

text \<open>
  The \<^verbatim>\<open>for active_node in useful_node_set\<close> loop of a round of
  \<^verbatim>\<open>FastEstimateSynchronousGossipTime\<close>. Here \<^verbatim>\<open>infected_node_set\<close> is updated inside
  the loop, so the \<^verbatim>\<open>issubset\<close> test of a node sees the infections of the nodes visited
  before it in the same round; every chosen node goes into
  \<^verbatim>\<open>newly_infected_node_set\<close>.
\<close>

fun fast_sync_round ::
  "('s, nat) random_source \<Rightarrow> int list list \<Rightarrow> real \<Rightarrow> nat \<Rightarrow> int list
     \<Rightarrow> int list \<Rightarrow> int list \<Rightarrow> int list \<Rightarrow> 's
     \<Rightarrow> py_error + (int list \<times> int list \<times> int list \<times> 's)" where
  "fast_sync_round G nl p t [] infected useless newly s = Inr (infected, useless, newly, s)"
| "fast_sync_round G nl p t (a # as) infected useless newly s =
     (case py_index nl a of
        Inl e \<Rightarrow> Inl e
      | Inr nb \<Rightarrow>
          if issubset nb infected
          then fast_sync_round G nl p t as infected (set_add a useless) newly s
          else (let (u, s1) = rand G PushDraw t a s in
                if u \<ge> p then
                  (case random_choice G t a nb s1 of
                     Inl e \<Rightarrow> Inl e
                   | Inr (chosen, s2) \<Rightarrow>
                       fast_sync_round G nl p t as (set_add chosen infected) useless
                         (set_add chosen newly) s2)
                else fast_sync_round G nl p t as infected useless newly s1))"

text \<open>
  The body of \<^verbatim>\<open>while True\<close>: a round over the frontier in the order of the machine, then
  the frontier becomes its union with \<^verbatim>\<open>newly_infected_node_set\<close> minus
  \<^verbatim>\<open>useless_node_set\<close>.
\<close>

definition fast_sync_iter ::
  "machine \<Rightarrow> ('s, nat) random_source \<Rightarrow> int list list \<Rightarrow> real \<Rightarrow> real \<Rightarrow> nat \<Rightarrow> int list
     \<Rightarrow> int list \<Rightarrow> 's \<Rightarrow> (nat, nat \<times> int list \<times> int list \<times> 's) outcome" where
  "fast_sync_iter M G nl p c t infected useful s =
     (case fast_sync_round G nl p t (set_order M t useful) infected [] [] s of
        Inl e \<Rightarrow> Raise e
      | Inr (infected', useless, newly, s') \<Rightarrow>
          (let useful1 = set_union useful newly;
               useful' = set_difference useful1 useless;
               t' = t + 1
           in if real (length infected') \<ge> fmul M c (length nl) then Return t'
              else Continue (t', infected', useful', s')))"

definition fast_sync_loop ::
  "machine \<Rightarrow> ('s, nat) random_source \<Rightarrow> int list list \<Rightarrow> real \<Rightarrow> real \<Rightarrow> nat \<Rightarrow> int list
     \<Rightarrow> int list \<Rightarrow> 's \<Rightarrow> (py_error + nat) option" where
  "fast_sync_loop M G nl p c t infected useful s =
     while_True (\<lambda>(t, infected, useful, s). fast_sync_iter M G nl p c t infected useful s)
       (t, infected, useful, s)"

definition FastEstimateSynchronousGossipTime ::
  "machine \<Rightarrow> ('s, nat) random_source \<Rightarrow> int \<Rightarrow> nat \<Rightarrow> int list list \<Rightarrow> real \<Rightarrow> real \<Rightarrow> 's
     \<Rightarrow> (py_error + nat) option" where
  "FastEstimateSynchronousGossipTime M G source_node number_of_nodes neighbor_list
       failure_probability end_criteria s =
     fast_sync_loop M G neighbor_list failure_probability end_criteria 0
       [source_node] [source_node] s"

subsection \<open>Samples and the event heap\<close>

text \<open>
  \<^verbatim>\<open>PoissonSample(rate)\<close> is \<^verbatim>\<open>-np.log(np.random.rand()) / rate\<close>: one uniform draw, of
  which the machine takes the negated logarithm over the rate.
\<close>

definition PoissonSample ::
  "machine \<Rightarrow> ('s, 't) random_source \<Rightarrow> call_site \<Rightarrow> 't \<Rightarrow> int \<Rightarrow> real \<Rightarrow> 's \<Rightarrow> ftime \<times> 's" where
  "PoissonSample M G site t n rate s =
     (let (u, s') = rand G site t n s
      in (neg_log_div M u rate, s'))"

type_synonym event = "ftime \<times> int"

text \<open>
  The heap is the list of its pending events. \<^verbatim>\<open>heapq.heappop\<close> returns the least tuple
  (time first, node second) and raises \<^verbatim>\<open>IndexError\<close> on an empty heap.
\<close>

definition heappush :: "event list \<Rightarrow> event \<Rightarrow> event list" where
  "heappush h e = e # h"

definition heappop :: "event list \<Rightarrow> py_error + (event \<times> event list)" where
  "heappop h =
     (case h of
        [] \<Rightarrow> Inl IndexError
      | x # xs \<Rightarrow> (let m = fold min xs x in Inr (m, remove1 m h)))"

definition PushAsynchronousEvent :: "event list \<Rightarrow> ftime \<Rightarrow> int \<Rightarrow> event list" where
  "PushAsynchronousEvent event_heap time node = heappush event_heap (time, node)"

subsection \<open>Asynchronous gossip\<close>

text \<open>
  One push attempt of \<open>a\<close> at time \<open>t\<close>. The second component of the result is
  \<open>Some chosen_node\<close> when \<^verbatim>\<open>uninf_node_chosen\<close> is true and \<open>None\<close> otherwise.
\<close>

definition push_attempt ::
  "('s, ftime) random_source \<Rightarrow> int list list \<Rightarrow> real \<Rightarrow> ftime \<Rightarrow> int \<Rightarrow> int list \<Rightarrow> 's
     \<Rightarrow> py_error + (int list \<times> int option \<times> 's)" where
  "push_attempt G nl p t a infected s =
     (let (u, s1) = rand G PushDraw t a s in
      if u \<ge> p then
        (case py_index nl a of
           Inl e \<Rightarrow> Inl e
         | Inr nb \<Rightarrow>
             (case random_choice G t a nb s1 of
                Inl e \<Rightarrow> Inl e
              | Inr (chosen, s2) \<Rightarrow>
                  Inr (set_add chosen infected,
                       (if chosen \<notin> set infected then Some chosen else None), s2)))
      else Inr (infected, None, s1))"

text \<open>
  The two \<^verbatim>\<open>PushAsynchronousEvent\<close> calls at the end of the loop body, the second one
  under \<^verbatim>\<open>if uninf_node_chosen\<close>.
\<close>

definition reschedule ::
  "machine \<Rightarrow> ('s, ftime) random_source \<Rightarrow> ftime \<Rightarrow> int \<Rightarrow> int option \<Rightarrow> event list \<Rightarrow> 's
     \<Rightarrow> event list \<times> 's" where
  "reschedule M G t a newnode heap s =
     (let (d1, s1) = PoissonSample M G OwnDelay t a 1 s;
          heap1 = PushAsynchronousEvent heap (fadd M t d1) a
      in case newnode of
           None \<Rightarrow> (heap1, s1)
         | Some chosen \<Rightarrow>
             (let (d2, s2) = PoissonSample M G FirstDelay t chosen 1 s1
              in (PushAsynchronousEvent heap1 (fadd M t d2) chosen, s2)))"

text \<open>
  The body of \<^verbatim>\<open>while True\<close> in \<^verbatim>\<open>EstimateAsynchronousGossipTime\<close>: pop, push attempt,
  threshold test against the product of \<^verbatim>\<open>end_criteria\<close> and \<^verbatim>\<open>len(neighbor_list)\<close>,
  rescheduling.
\<close>

definition async_iter ::
  "machine \<Rightarrow> ('s, ftime) random_source \<Rightarrow> int list list \<Rightarrow> real \<Rightarrow> real \<Rightarrow> int list
     \<Rightarrow> event list \<Rightarrow> 's \<Rightarrow> (ftime, int list \<times> event list \<times> 's) outcome" where
  "async_iter M G nl p c infected heap s =
     (case heappop heap of
        Inl e \<Rightarrow> Raise e
      | Inr ((current_time, active_node), heap1) \<Rightarrow>
          (case push_attempt G nl p current_time active_node infected s of
             Inl e \<Rightarrow> Raise e
           | Inr (infected', newnode, s1) \<Rightarrow>
               if real (length infected') \<ge> fmul M c (length nl) then Return current_time
               else (let (heap2, s2) = reschedule M G current_time active_node newnode heap1 s1
                     in Continue (infected', heap2, s2))))"

definition async_loop ::
  "machine \<Rightarrow> ('s, ftime) random_source \<Rightarrow> int list list \<Rightarrow> real \<Rightarrow> real \<Rightarrow> int list
     \<Rightarrow> event list \<Rightarrow> 's \<Rightarrow> (py_error + ftime) option" where
  "async_loop M G nl p c infected heap s =
     while_True (\<lambda>(infected, heap, s). async_iter M G nl p c infected heap s)
       (infected, heap, s)"

definition EstimateAsynchronousGossipTime ::
  "machine \<Rightarrow> ('s, ftime) random_source \<Rightarrow> int \<Rightarrow> nat \<Rightarrow> int list list \<Rightarrow> real \<Rightarrow> real \<Rightarrow> 's
     \<Rightarrow> (py_error + ftime) option" where
  "EstimateAsynchronousGossipTime M G source_node number_of_nodes neighbor_list
       failure_probability end_criteria s =
     (let t = Fin 0;
          (d, s1) = PoissonSample M G FirstDelay t source_node 1 s;
          event_heap = PushAsynchronousEvent [] (fadd M t d) source_node
      in async_loop M G neighbor_list failure_probability end_criteria [source_node]
           event_heap s1)"

text \<open>
  The body of \<^verbatim>\<open>while True\<close> in \<^verbatim>\<open>FastEstimateAsynchronousGossipTime\<close>: after the pop,
  \<^verbatim>\<open>continue\<close> when all neighbours of the node are infected; the threshold test is against
  the product of \<^verbatim>\<open>end_criteria\<close> and \<^verbatim>\<open>number_of_nodes\<close>.
\<close>

definition fast_async_iter ::
  "machine \<Rightarrow> ('s, ftime) random_source \<Rightarrow> int list list \<Rightarrow> real \<Rightarrow> real \<Rightarrow> nat \<Rightarrow> int list
     \<Rightarrow> event list \<Rightarrow> 's \<Rightarrow> (ftime, int list \<times> event list \<times> 's) outcome" where
  "fast_async_iter M G nl p c number_of_nodes infected heap s =
     (case heappop heap of
        Inl e \<Rightarrow> Raise e
      | Inr ((current_time, active_node), heap1) \<Rightarrow>
          (case py_index nl active_node of
             Inl e \<Rightarrow> Raise e
           | Inr nb \<Rightarrow>
               if issubset nb infected then Continue (infected, heap1, s)
               else
                 (case push_attempt G nl p current_time active_node infected s of
                    Inl e \<Rightarrow> Raise e
                  | Inr (infected', newnode, s1) \<Rightarrow>
                      if real (length infected') \<ge> fmul M c number_of_nodes
                      then Return current_time
                      else (let (heap2, s2) =
                                  reschedule M G current_time active_node newnode heap1 s1
                            in Continue (infected', heap2, s2)))))"

definition fast_async_loop ::
  "machine \<Rightarrow> ('s, ftime) random_source \<Rightarrow> int list list \<Rightarrow> real \<Rightarrow> real \<Rightarrow> nat \<Rightarrow> int list
     \<Rightarrow> event list \<Rightarrow> 's \<Rightarrow> (py_error + ftime) option" where
  "fast_async_loop M G nl p c number_of_nodes infected heap s =
     while_True
       (\<lambda>(infected, heap, s). fast_async_iter M G nl p c number_of_nodes infected heap s)
       (infected, heap, s)"

definition FastEstimateAsynchronousGossipTime ::
  "machine \<Rightarrow> ('s, ftime) random_source \<Rightarrow> int \<Rightarrow> nat \<Rightarrow> int list list \<Rightarrow> real \<Rightarrow> real \<Rightarrow> 's
     \<Rightarrow> (py_error + ftime) option" where
  "FastEstimateAsynchronousGossipTime M G source_node number_of_nodes neighbor_list
       failure_probability end_criteria s =
     (let t = Fin 0;
          (d, s1) = PoissonSample M G FirstDelay t source_node 1 s;
          event_heap = PushAsynchronousEvent [] (fadd M t d) source_node
      in fast_async_loop M G neighbor_list failure_probability end_criteria number_of_nodes
           [source_node] event_heap s1)"

subsection \<open>Notions used to state the properties\<close>

text \<open>The nodes that appear in the neighbour list of some node of \<open>as\<close>.\<close>

definition neighbours_of :: "int list list \<Rightarrow> int list \<Rightarrow> int set" where
  "neighbours_of nl as = {x. \<exists>a \<in> set as. \<exists>nb. py_index nl a = Inr nb \<and> x \<in> set nb}"

text \<open>
  The targets of the successful pushes of the nodes \<open>as\<close> at position \<open>t\<close>, when the
  failure draw of node \<open>a\<close> is \<open>U PushDraw t a\<close> and its index draw is \<open>K t a\<close>.
\<close>

definition pushes ::
  "(call_site \<Rightarrow> 't \<Rightarrow> int \<Rightarrow> real) \<Rightarrow> ('t \<Rightarrow> int \<Rightarrow> nat) \<Rightarrow> int list list \<Rightarrow> real \<Rightarrow> 't
     \<Rightarrow> int list \<Rightarrow> int set" where
  "pushes U K nl p t as =
     {x. \<exists>a \<in> set as. p \<le> U PushDraw t a \<and>
           (\<exists>nb. py_index nl a = Inr nb \<and> nb \<noteq> [] \<and> x = nb ! (K t a mod length nb))}"

text \<open>
  The synchronous process in the words of its description: at the start the source is
  infected; in round \<open>k + 1\<close> every node infected at the start of the round makes its
  push, and the targets of the successful pushes are merged into the infected set at the
  end of the round. Rounds are numbered from 0 in the draws and from 1 in the result.
\<close>

fun infected_after ::
  "(call_site \<Rightarrow> nat \<Rightarrow> int \<Rightarrow> real) \<Rightarrow> (nat \<Rightarrow> int \<Rightarrow> nat) \<Rightarrow> int list list \<Rightarrow> real \<Rightarrow> int
     \<Rightarrow> nat \<Rightarrow> int set" where
  "infected_after U K nl p src 0 = {src}"
| "infected_after U K nl p src (Suc k) =
     infected_after U K nl p src k
       \<union> (\<Union>a \<in> infected_after U K nl p src k. pushes U K nl p k [a])"

text \<open>
  A topology in which every adjacency list is non-empty and names only nodes
  \<open>0, \<dots>, N - 1\<close>.
\<close>

definition wf_topology :: "int list list \<Rightarrow> bool" where
  "wf_topology nl =
     list_all (\<lambda>nb. nb \<noteq> [] \<and> list_all (\<lambda>x. 0 \<le> x \<and> x < int (length nl)) nb) nl"

definition in_range :: "int list list \<Rightarrow> int \<Rightarrow> bool" where
  "in_range nl a = (0 \<le> a \<and> a < int (length nl))"

text \<open>
  The states of the exact and of the fast synchronous loop that correspond to each other:
  the same round and generator state, the same infected nodes, all of them indices of the
  neighbour list, and a frontier that holds every infected node with a neighbour that is
  not infected.
\<close>

definition sync_related ::
  "int list list \<Rightarrow> nat \<times> int list \<times> 's \<Rightarrow> nat \<times> int list \<times> int list \<times> 's \<Rightarrow> bool" where
  "sync_related nl =
     (\<lambda>(t, infected, s) (t', infected', useful, s').
        t' = t \<and> s' = s \<and> set infected' = set infected
        \<and> distinct infected \<and> distinct infected'
        \<and> set useful \<subseteq> set infected'
        \<and> (\<forall>a \<in> set infected. in_range nl a)
        \<and> (\<forall>a \<in> set infected - set useful. neighbours_of nl [a] \<subseteq> set infected))"

text \<open>
  The states of the exact and of the fast asynchronous loop that correspond to each other:
  the same infected set and generator state, and the heap of the exact loop is the heap of
  the fast loop together with events \<open>D\<close> of nodes whose neighbours are all infected.
  Such events are around only when the threshold has not been met.
\<close>

definition async_related ::
  "machine \<Rightarrow> int list list \<Rightarrow> real
     \<Rightarrow> int list \<times> event list \<times> 's \<Rightarrow> int list \<times> event list \<times> 's \<Rightarrow> bool" where
  "async_related M nl c =
     (\<lambda>(infected, heap, s) (infected', heap', s').
        infected' = infected \<and> s' = s
        \<and> (\<forall>e \<in> set heap. in_range nl (snd e))
        \<and> (\<exists>D. mset heap = mset heap' + D
              \<and> (\<forall>e \<in># D. neighbours_of nl [snd e] \<subseteq> set infected)
              \<and> (real (length infected) < fmul M c (length nl)
                  \<or> D = {#} \<and> (\<forall>e \<in> set heap'. \<not> neighbours_of nl [snd e] \<subseteq> set infected))))"

text \<open>
  The heap of the exact asynchronous loop after an event that changes nothing else: the
  earliest event is replaced by the next activation of its node.
\<close>

definition requeued ::
  "machine \<Rightarrow> ('s, ftime) random_source \<Rightarrow> event list \<Rightarrow> 's \<Rightarrow> event list" where
  "requeued M G heap s =
     (case Min (set heap) of
        (t, a) \<Rightarrow> (fadd M t (fst (PoissonSample M G OwnDelay t a 1 s)), a) # remove1 (t, a) heap)"

text \<open>
  A machine and delay decisions on which time advances: no new event is earlier than the
  event that schedules it, and every event scheduled from a time in \<open>[0, \<tau>]\<close> is later
  than that time by at least \<open>\<delta>\<close>. (A rounded sum can fail to advance: it returns its first
  argument when the second is small enough.) The backlog of the exact asynchronous loop
  against the fast one counts, for every event before the earliest event of the fast heap,
  how many steps of \<open>\<delta>\<close> fit in between.
\<close>

definition advancing ::
  "real \<Rightarrow> real \<Rightarrow> machine \<Rightarrow> (call_site \<Rightarrow> ftime \<Rightarrow> int \<Rightarrow> real) \<Rightarrow> bool" where
  "advancing \<delta> \<tau> M V =
     (0 < \<delta>
      \<and> (\<forall>site t a. site \<noteq> PushDraw \<longrightarrow> t \<le> fadd M t (neg_log_div M (V site t a) 1))
      \<and> (\<forall>site t a. site \<noteq> PushDraw \<and> 0 \<le> t \<and> t \<le> \<tau> \<longrightarrow>
            (\<exists>x. fadd M (Fin t) (neg_log_div M (V site (Fin t) a) 1) = Fin x \<and> t + \<delta> \<le> x)))"

definition event_weight :: "real \<Rightarrow> event \<Rightarrow> event \<Rightarrow> nat" where
  "event_weight \<delta> m x =
     (if x < m
      then (case (fst x, fst m) of (Fin t, Fin \<tau>) \<Rightarrow> 1 + nat \<lfloor>(\<tau> - t) / \<delta>\<rfloor> | _ \<Rightarrow> 1)
      else 0)"

definition backlog :: "real \<Rightarrow> event list \<Rightarrow> event list \<Rightarrow> nat" where
  "backlog \<delta> heap heap' = sum_list (map (event_weight \<delta> (Min (set heap'))) heap)"

section \<open>Basic facts\<close>

subsection \<open>Sets as duplicate-free lists\<close>

lemma set_set_add: "set (set_add x S) = insert x (set S)"
  by (auto simp: set_add_def)

lemma distinct_set_add: "distinct S \<Longrightarrow> distinct (set_add x S)"
  by (simp add: set_add_def)

lemma length_set_add: "length S \<le> length (set_add x S)"
  by (simp add: set_add_def)

lemma set_set_union: "set (set_union S T) = set S \<union> set T"
  unfolding set_union_def by (induction T arbitrary: S) (auto simp: set_set_add)

lemma distinct_set_union: "distinct S \<Longrightarrow> distinct (set_union S T)"
  unfolding set_union_def by (induction T arbitrary: S) (auto simp: distinct_set_add)

lemma length_set_union: "length S \<le> length (set_union S T)"
  unfolding set_union_def
proof (induction T arbitrary: S)
  case Nil
  show ?case by simp
next
  case (Cons x T)
  have "length S \<le> length (set_add x S)" by (rule length_set_add)
  also have "\<dots> \<le> length (fold set_add T (set_add x S))" by (rule Cons.IH)
  finally show ?case by simp
qed

lemma set_set_difference: "set (set_difference S T) = set S - set T"
  by (auto simp: set_difference_def)

lemma distinct_set_difference: "distinct S \<Longrightarrow> distinct (set_difference S T)"
  by (simp add: set_difference_def)

lemma issubset_iff: "issubset xs S \<longleftrightarrow> set xs \<subseteq> set S"
  by (auto simp: issubset_def list_all_iff)

subsection \<open>The machine\<close>

lemma set_set_order: "set (set_order M t S) = set S"
  by (simp add: set_order_def)

lemma set_order_single: "set_order M t [a] = [a]"
  by (simp add: set_order_def)

lemma ideal_fmul: "fmul ideal_machine c n = c * real n"
  by (simp add: ideal_machine_def)

lemma ideal_fadd: "fadd ideal_machine = time_add"
  by (simp add: ideal_machine_def)

lemma ideal_neg_log_div:
  "neg_log_div ideal_machine u rate = (if u = 0 then PInf else Fin (- ln u / rate))"
  by (simp add: ideal_machine_def)

lemma ideal_set_order: "set_order ideal_machine t S = S"
  by (simp add: set_order_def ideal_machine_def sort_key_const)


subsection \<open>The loops, unfolded once\<close>

lemma sync_loop_unfold:
  "sync_loop M G nl p c t infected s =
     (case sync_iter M G nl p c t infected s of
        Raise e \<Rightarrow> Some (Inl e)
      | Return r \<Rightarrow> Some (Inr r)
      | Continue (t', infected', s') \<Rightarrow> sync_loop M G nl p c t' infected' s')"
  unfolding sync_loop_def
  by (subst while_True.simps) (simp split: outcome.splits)

lemma fast_sync_loop_unfold:
  "fast_sync_loop M G nl p c t infected useful s =
     (case fast_sync_iter M G nl p c t infected useful s of
        Raise e \<Rightarrow> Some (Inl e)
      | Return r \<Rightarrow> Some (Inr r)
      | Continue (t', infected', useful', s') \<Rightarrow>
          fast_sync_loop M G nl p c t' infected' useful' s')"
  unfolding fast_sync_loop_def
  by (subst while_True.simps) (simp split: outcome.splits)

lemma async_loop_unfold:
  "async_loop M G nl p c infected heap s =
     (case async_iter M G nl p c infected heap s of
        Raise e \<Rightarrow> Some (Inl e)
      | Return r \<Rightarrow> Some (Inr r)
      | Continue (infected', heap', s') \<Rightarrow> async_loop M G nl p c infected' heap' s')"
  unfolding async_loop_def
  by (subst while_True.simps) (simp split: outcome.splits)

lemma fast_async_loop_unfold:
  "fast_async_loop M G nl p c n infected heap s =
     (case fast_async_iter M G nl p c n infected heap s of
        Raise e \<Rightarrow> Some (Inl e)
      | Return r \<Rightarrow> Some (Inr r)
      | Continue (infected', heap', s') \<Rightarrow> fast_async_loop M G nl p c n infected' heap' s')"
  unfolding fast_async_loop_def
  by (subst while_True.simps) (simp split: outcome.splits)

subsection \<open>Unfolding a run on a concrete input\<close>

lemmas run_defs = sync_loop_unfold fast_sync_loop_unfold sync_iter_def fast_sync_iter_def
  async_loop_unfold fast_async_loop_unfold async_iter_def fast_async_iter_def
  push_attempt_def reschedule_def PoissonSample_def PushAsynchronousEvent_def
  heappush_def heappop_def
  sequence_source_def decision_source_def py_index_def random_choice_def
  set_add_def set_union_def set_difference_def issubset_def
  less_eq_prod_def less_ftime_def min_def
  ideal_fmul ideal_fadd ideal_neg_log_div ideal_set_order

lemmas estimate_defs = EstimateSynchronousGossipTime_def FastEstimateSynchronousGossipTime_def
  EstimateAsynchronousGossipTime_def FastEstimateAsynchronousGossipTime_def

section \<open>Reasoning about loops\<close>

text \<open>
  Principles for \<open>while_True\<close>: the loop returns \<open>r\<close> exactly when, after some number
  of executions of the body that reach its end, the next execution returns \<open>r\<close>; a run
  that returns is matched by a second loop that follows it in lock step except for steps
  of the first that the second has no need for; two loops in lock step have the same
  outcome; and a loop whose body always continues from an invariant never leaves.
\<close>

lemma iterations_Suc_front:
  "iterations body (Suc k) st =
     (case body st of Continue st' \<Rightarrow> iterations body k st' | _ \<Rightarrow> None)"
proof (induction k arbitrary: st)
  case 0
  show ?case by (simp split: outcome.splits)
next
  case (Suc k)
  have "iterations body (Suc (Suc k)) st =
      (case iterations body (Suc k) st of
         None \<Rightarrow> None
       | Some st' \<Rightarrow> (case body st' of Continue st'' \<Rightarrow> Some st'' | _ \<Rightarrow> None))"
    by (rule iterations.simps(2))
  also have "\<dots> =
      (case (case body st of Continue st' \<Rightarrow> iterations body k st' | _ \<Rightarrow> None) of
         None \<Rightarrow> None
       | Some st' \<Rightarrow> (case body st' of Continue st'' \<Rightarrow> Some st'' | _ \<Rightarrow> None))"
    by (simp only: Suc.IH)
  also have "\<dots> = (case body st of Continue st' \<Rightarrow> iterations body (Suc k) st' | _ \<Rightarrow> None)"
    by (cases "body st") simp_all
  finally show ?case .
qed

lemma iterations_return:
  "iterations body k st = Some st' \<Longrightarrow> body st' = Return r
   \<Longrightarrow> while_True body st = Some (Inr r)"
proof (induction k arbitrary: st)
  case 0
  then show ?case by (subst while_True.simps) simp
next
  case (Suc k)
  from Suc.prems(1) obtain st1 where b: "body st = Continue st1"
    and i: "iterations body k st1 = Some st'"
    unfolding iterations_Suc_front by (cases "body st") simp_all
  from Suc.IH [OF i Suc.prems(2)] b show ?case by (subst while_True.simps) simp
qed

lemma while_True_return_iterations:
  fixes body :: "'st \<Rightarrow> ('r, 'st) outcome"
  assumes run: "while_True body st = Some y"
  shows "\<forall>r. y = Inr r \<longrightarrow> (\<exists>k st'. iterations body k st = Some st' \<and> body st' = Return r)"
proof -
  have "body = body \<longrightarrow>
      (\<forall>r. y = Inr r \<longrightarrow> (\<exists>k st'. iterations body k st = Some st' \<and> body st' = Return r))"
  proof (rule while_True.raw_induct
      [where P = "\<lambda>b a y. b = body \<longrightarrow>
          (\<forall>r. y = Inr r \<longrightarrow> (\<exists>k st'. iterations body k a = Some st' \<and> body st' = Return r))",
        OF _ run], intro impI allI)
    fix loop :: "('st \<Rightarrow> ('r, 'st) outcome) \<Rightarrow> 'st \<Rightarrow> (py_error + 'r) option"
      and b a y r
    assume IH: "\<And>b a y. loop b a = Some y \<Longrightarrow> b = body \<longrightarrow>
          (\<forall>r. y = Inr r \<longrightarrow> (\<exists>k st'. iterations body k a = Some st' \<and> body st' = Return r))"
      and unf: "(case b a of Raise e \<Rightarrow> Some (Inl e) | Return r \<Rightarrow> Some (Inr r)
               | Continue st' \<Rightarrow> loop b st') = Some y"
      and bb: "b = body" and y: "y = Inr r"
    show "\<exists>k st'. iterations body k a = Some st' \<and> body st' = Return r"
    proof (cases "body a")
      case (Raise e)
      with unf bb y show ?thesis by simp
    next
      case (Return r')
      with unf bb y have "body a = Return r" by simp
      moreover have "iterations body 0 a = Some a" by simp
      ultimately show ?thesis by blast
    next
      case (Continue a')
      with unf bb have "loop body a' = Some y" by simp
      from IH [OF this] y obtain k st' where
        i: "iterations body k a' = Some st'" and r: "body st' = Return r" by blast
      from i Continue have "iterations body (Suc k) a = Some st'"
        unfolding iterations_Suc_front by simp
      with r show ?thesis by blast
    qed
  qed
  then show ?thesis by simp
qed

lemma while_True_returns_iff:
  "while_True body st = Some (Inr r)
     \<longleftrightarrow> (\<exists>k st'. iterations body k st = Some st' \<and> body st' = Return r)"
  using while_True_return_iterations [of body st "Inr r"] iterations_return [of body _ st _ r]
  by blast

lemma while_True_stutter_aux:
  assumes step: "\<And>a b. R a b \<Longrightarrow>
      (\<exists>a'. f a = Continue a' \<and> R a' b) \<or> rel_outcome (=) R (f a) (g b)"
    and run: "while_True f a = Some y"
  shows "\<forall>b. R a b \<longrightarrow> while_True g b = Some y"
proof -
  have "f = f \<longrightarrow> (\<forall>b. R a b \<longrightarrow> while_True g b = Some y)"
  proof (rule while_True.raw_induct
    [where P = "\<lambda>body a y. body = f \<longrightarrow> (\<forall>b. R a b \<longrightarrow> while_True g b = Some y)",
      OF _ run], intro impI allI)
  fix loop :: "('a \<Rightarrow> ('c, 'a) outcome) \<Rightarrow> 'a \<Rightarrow> (py_error + 'c) option"
    and body a y b
  assume IH: "\<And>body a y. loop body a = Some y
                \<Longrightarrow> body = f \<longrightarrow> (\<forall>b. R a b \<longrightarrow> while_True g b = Some y)"
    and unf: "(case body a of Raise e \<Rightarrow> Some (Inl e) | Return r \<Rightarrow> Some (Inr r)
               | Continue st' \<Rightarrow> loop body st') = Some y"
    and bf: "body = f" and R: "R a b"
  from step [OF R] show "while_True g b = Some y"
  proof
    assume "\<exists>a'. f a = Continue a' \<and> R a' b"
    then obtain a' where fa: "f a = Continue a'" and R': "R a' b" by blast
    from unf bf fa have "loop f a' = Some y" by simp
    from IH [OF this] R' show ?thesis by simp
  next
    assume rel: "rel_outcome (=) R (f a) (g b)"
    show ?thesis
    proof (cases "f a")
      case (Raise e)
      with rel have "g b = Raise e" by (cases "g b") simp_all
      with unf bf Raise show ?thesis by (subst while_True.simps) simp
    next
      case (Return r)
      with rel have "g b = Return r" by (cases "g b") simp_all
      with unf bf Return show ?thesis by (subst while_True.simps) simp
    next
      case (Continue a')
      with rel obtain b' where gb: "g b = Continue b'" and R': "R a' b'"
        by (cases "g b") simp_all
      from unf bf Continue have "loop f a' = Some y" by simp
      from IH [OF this] R' have "while_True g b' = Some y" by simp
      with gb show ?thesis by (subst while_True.simps) simp
    qed
  qed
  qed
  then show ?thesis by simp
qed

lemma while_True_stutter:
  assumes "\<And>a b. R a b \<Longrightarrow>
      (\<exists>a'. f a = Continue a' \<and> R a' b) \<or> rel_outcome (=) R (f a) (g b)"
    and "R a b" and "while_True f a = Some y"
  shows "while_True g b = Some y"
  using while_True_stutter_aux [of R f g a y] assms by blast

lemma stutter_measure:
  fixes \<mu> :: "'a \<Rightarrow> nat"
  assumes step: "\<And>a. R a \<Longrightarrow> (\<exists>a'. f a = Continue a' \<and> R a' \<and> \<mu> a' < \<mu> a) \<or> Q a"
    and fin: "\<And>a. R a \<Longrightarrow> Q a \<Longrightarrow> while_True f a = Some y"
    and R: "R a"
  shows "while_True f a = Some y"
proof -
  have "\<forall>a. R a \<longrightarrow> \<mu> a = n \<longrightarrow> while_True f a = Some y" for n
  proof (induction n rule: less_induct)
    case (less n)
    show ?case
    proof (intro allI impI)
      fix a assume R: "R a" and n: "\<mu> a = n"
      from step [OF R] show "while_True f a = Some y"
      proof
        assume "\<exists>a'. f a = Continue a' \<and> R a' \<and> \<mu> a' < \<mu> a"
        then obtain a' where fa: "f a = Continue a'" and R': "R a'" and m: "\<mu> a' < \<mu> a"
          by blast
        from less.IH [of "\<mu> a'"] m n R' have "while_True f a' = Some y" by simp
        with fa show ?thesis by (subst while_True.simps) simp
      next
        assume "Q a"
        with R show ?thesis by (rule fin)
      qed
    qed
  qed
  with R show ?thesis by blast
qed

lemma while_True_stutter_back:
  fixes \<mu> :: "'a \<Rightarrow> 'b \<Rightarrow> nat"
  assumes step: "\<And>a b. R a b \<Longrightarrow> while_True g b = Some (Inr r) \<Longrightarrow>
      (\<exists>a'. f a = Continue a' \<and> R a' b \<and> \<mu> a' b < \<mu> a b)
      \<or> rel_outcome (=) R (f a) (g b)"
    and R: "R a b" and run: "while_True g b = Some (Inr r)"
  shows "while_True f a = Some (Inr r)"
proof -
  from run obtain k st' where i: "iterations g k b = Some st'" and ret: "g st' = Return r"
    unfolding while_True_returns_iff by blast
  have "\<forall>a b. R a b \<longrightarrow> iterations g k b = Some st' \<longrightarrow> while_True f a = Some (Inr r)"
  proof (induction k)
    case 0
    show ?case
    proof (intro allI impI)
      fix a b assume R: "R a b" and i: "iterations g 0 b = Some st'"
      with ret have gb: "g b = Return r" by simp
      then have run: "while_True g b = Some (Inr r)" by (subst while_True.simps) simp
      show "while_True f a = Some (Inr r)"
      proof (rule stutter_measure [where R = "\<lambda>a. R a b" and \<mu> = "\<lambda>a. \<mu> a b"
            and Q = "\<lambda>a. rel_outcome (=) R (f a) (g b)", OF _ _ R])
        fix a assume "R a b"
        from step [OF this run]
        show "(\<exists>a'. f a = Continue a' \<and> R a' b \<and> \<mu> a' b < \<mu> a b)
                \<or> rel_outcome (=) R (f a) (g b)" .
      next
        fix a assume "rel_outcome (=) R (f a) (g b)"
        with gb have "f a = Return r" by (cases "f a") simp_all
        then show "while_True f a = Some (Inr r)" by (subst while_True.simps) simp
      qed
    qed
  next
    case (Suc k)
    show ?case
    proof (intro allI impI)
      fix a b assume R: "R a b" and i: "iterations g (Suc k) b = Some st'"
      from i obtain b1 where gb: "g b = Continue b1" and i1: "iterations g k b1 = Some st'"
        unfolding iterations_Suc_front by (cases "g b") simp_all
      from iterations_return [OF i ret] have run: "while_True g b = Some (Inr r)" .
      show "while_True f a = Some (Inr r)"
      proof (rule stutter_measure [where R = "\<lambda>a. R a b" and \<mu> = "\<lambda>a. \<mu> a b"
            and Q = "\<lambda>a. rel_outcome (=) R (f a) (g b)", OF _ _ R])
        fix a assume "R a b"
        from step [OF this run]
        show "(\<exists>a'. f a = Continue a' \<and> R a' b \<and> \<mu> a' b < \<mu> a b)
                \<or> rel_outcome (=) R (f a) (g b)" .
      next
        fix a assume "rel_outcome (=) R (f a) (g b)"
        with gb obtain a1 where fa: "f a = Continue a1" and R1: "R a1 b1"
          by (cases "f a") simp_all
        from Suc.IH R1 i1 have "while_True f a1 = Some (Inr r)" by blast
        with fa show "while_True f a = Some (Inr r)" by (subst while_True.simps) simp
      qed
    qed
  qed
  with R i show ?thesis by blast
qed

lemma rel_outcome_flip:
  "rel_outcome (=) R x y \<Longrightarrow> rel_outcome (=) (\<lambda>b a. R a b) y x"
  by (cases x; cases y) simp_all

lemma while_True_sim:
  assumes step: "\<And>a b. R a b \<Longrightarrow> rel_outcome (=) R (f a) (g b)" and R: "R a b"
  shows "while_True f a = while_True g b"
proof (cases "while_True f a")
  case (Some y)
  have "while_True g b = Some y"
    by (rule while_True_stutter [of R f g, OF _ R Some]) (simp add: step)
  with Some show ?thesis by simp
next
  case None
  show ?thesis
  proof (cases "while_True g b")
    case (Some y)
    have "while_True f a = Some y"
    proof (rule while_True_stutter [of "\<lambda>b a. R a b" g f, OF _ _ Some])
      show "R a b" by (rule R)
    next
      fix b a assume "R a b"
      then show "(\<exists>a'. g b = Continue a' \<and> R a a') \<or> rel_outcome (=) (\<lambda>b a. R a b) (g b) (f a)"
        using rel_outcome_flip [OF step] by blast
    qed
    with None show ?thesis by simp
  next
    case n: None
    with None show ?thesis by simp
  qed
qed

lemma while_True_diverges:
  assumes step: "\<And>st. Inv st \<Longrightarrow> \<exists>st'. body st = Continue st' \<and> Inv st'"
    and inv: "Inv st"
  shows "while_True body st = None"
proof (cases "while_True body st")
  case None
  then show ?thesis .
next
  case (Some y)
  have "body = body \<longrightarrow> \<not> Inv st"
  proof (rule while_True.raw_induct
      [where P = "\<lambda>b a y. b = body \<longrightarrow> \<not> Inv a", OF _ Some], intro impI)
    fix loop :: "('a \<Rightarrow> ('b, 'a) outcome) \<Rightarrow> 'a \<Rightarrow> (py_error + 'b) option"
      and b a y
    assume IH: "\<And>b a y. loop b a = Some y \<Longrightarrow> b = body \<longrightarrow> \<not> Inv a"
      and unf: "(case b a of Raise e \<Rightarrow> Some (Inl e) | Return r \<Rightarrow> Some (Inr r)
               | Continue st' \<Rightarrow> loop b st') = Some y"
      and bb: "b = body"
    show "\<not> Inv a"
    proof
      assume "Inv a"
      from step [OF this] obtain a' where c: "body a = Continue a'" and i: "Inv a'" by blast
      from unf bb c have "loop body a' = Some y" by simp
      from IH [OF this] i show False by simp
    qed
  qed
  with inv show ?thesis by simp
qed

section \<open>Rounds and push attempts\<close>

lemma random_choice_mem:
  "random_choice G t a nb s = Inr (chosen, s') \<Longrightarrow> chosen \<in> set nb"
  by (auto simp: random_choice_def split: if_splits prod.splits)

lemma random_choice_decision:
  "random_choice (decision_source U K) t a nb s =
     (if nb = [] then Inl ValueError else Inr (nb ! (K t a mod length nb), s))"
  by (simp add: random_choice_def decision_source_def)

lemma rand_decision: "rand (decision_source U K) c t a s = (U c t a, s)"
  by (simp add: decision_source_def)

lemma neighbours_of_Cons:
  "neighbours_of nl (a # as) =
     {x. \<exists>nb. py_index nl a = Inr nb \<and> x \<in> set nb} \<union> neighbours_of nl as"
  by (auto simp: neighbours_of_def)

lemma pushes_Nil: "pushes U K nl p t [] = {}"
  by (simp add: pushes_def)

lemma pushes_Cons:
  "pushes U K nl p t (a # as) = pushes U K nl p t [a] \<union> pushes U K nl p t as"
  by (auto simp: pushes_def)

lemma pushes_single_fail: "\<not> p \<le> U PushDraw t a \<Longrightarrow> pushes U K nl p t [a] = {}"
  by (simp add: pushes_def)

lemma pushes_single_ok:
  "p \<le> U PushDraw t a \<Longrightarrow> py_index nl a = Inr nb \<Longrightarrow> nb \<noteq> []
   \<Longrightarrow> pushes U K nl p t [a] = {nb ! (K t a mod length nb)}"
  by (auto simp: pushes_def)

lemma pushes_subset_neighbours: "pushes U K nl p t as \<subseteq> neighbours_of nl as"
proof
  fix x assume "x \<in> pushes U K nl p t as"
  then obtain a nb where a: "a \<in> set as" "py_index nl a = Inr nb" and ne: "nb \<noteq> []"
    and x: "x = nb ! (K t a mod length nb)" by (auto simp: pushes_def)
  from ne x have "x \<in> set nb" by simp
  with a show "x \<in> neighbours_of nl as" unfolding neighbours_of_def by blast
qed

lemma sync_round_newly:
  "sync_round G nl p t as newly s = Inr (newly', s')
   \<Longrightarrow> set newly \<subseteq> set newly' \<and> set newly' \<subseteq> set newly \<union> neighbours_of nl as"
proof (induction as arbitrary: newly s)
  case Nil
  then show ?case by simp
next
  case (Cons a as)
  obtain u s1 where r: "rand G PushDraw t a s = (u, s1)" by (cases "rand G PushDraw t a s")
  show ?case
  proof (cases "p \<le> u")
    case False
    with Cons.prems r have "sync_round G nl p t as newly s1 = Inr (newly', s')" by simp
    from Cons.IH [OF this] show ?thesis by (auto simp: neighbours_of_Cons)
  next
    case True
    with Cons.prems r obtain nb chosen s2 where
      nb: "py_index nl a = Inr nb" and ch: "random_choice G t a nb s1 = Inr (chosen, s2)"
      and rest: "sync_round G nl p t as (set_add chosen newly) s2 = Inr (newly', s')"
      by (auto split: sum.splits)
    have "chosen \<in> set nb" using ch by (rule random_choice_mem)
    with Cons.IH [OF rest] nb show ?thesis
      by (auto simp: neighbours_of_Cons set_set_add)
  qed
qed

lemma sync_round_decision:
  "sync_round (decision_source U K) nl p t as newly s = Inr (newly', s')
   \<Longrightarrow> set newly' = set newly \<union> pushes U K nl p t as \<and> s' = s"
proof (induction as arbitrary: newly)
  case Nil
  then show ?case by (simp add: pushes_Nil)
next
  case (Cons a as)
  show ?case
  proof (cases "p \<le> U PushDraw t a")
    case False
    with Cons.prems have "sync_round (decision_source U K) nl p t as newly s = Inr (newly', s')"
      by (simp add: rand_decision)
    from Cons.IH [OF this] False show ?thesis
      by (subst pushes_Cons) (simp add: pushes_single_fail)
  next
    case True
    with Cons.prems obtain nb where
      nb: "py_index nl a = Inr nb" and ne: "nb \<noteq> []"
      and rest: "sync_round (decision_source U K) nl p t as
                   (set_add (nb ! (K t a mod length nb)) newly) s = Inr (newly', s')"
      by (auto simp: rand_decision random_choice_decision split: sum.splits if_splits)
    from Cons.IH [OF rest] show ?thesis
      by (subst pushes_Cons) (auto simp: pushes_single_ok [of p U t a nl nb K, OF True nb ne] set_set_add)
  qed
qed

lemma push_attempt_mono:
  "push_attempt G nl p t a infected s = Inr (infected', newnode, s')
   \<Longrightarrow> set infected \<subseteq> set infected' \<and> length infected \<le> length infected'
       \<and> (distinct infected \<longrightarrow> distinct infected')"
  by (auto simp: push_attempt_def set_set_add length_set_add distinct_set_add
           split: prod.splits if_splits sum.splits)

lemma fast_sync_round_mono:
  "fast_sync_round G nl p t as infected useless newly s = Inr (infected', useless', newly', s')
   \<Longrightarrow> set infected \<subseteq> set infected' \<and> length infected \<le> length infected'
       \<and> (distinct infected \<longrightarrow> distinct infected')"
proof (induction as arbitrary: infected useless newly s)
  case Nil
  then show ?case by simp
next
  case (Cons a as)
  from Cons.prems obtain nb where nb: "py_index nl a = Inr nb"
    by (auto split: sum.splits)
  show ?case
  proof (cases "issubset nb infected")
    case True
    with Cons.prems nb have
      "fast_sync_round G nl p t as infected (set_add a useless) newly s
         = Inr (infected', useless', newly', s')" by simp
    from Cons.IH [OF this] show ?thesis .
  next
    case False
    obtain u s1 where r: "rand G PushDraw t a s = (u, s1)" by (cases "rand G PushDraw t a s")
    show ?thesis
    proof (cases "p \<le> u")
      case no: False
      with Cons.prems nb False r have
        "fast_sync_round G nl p t as infected useless newly s1
           = Inr (infected', useless', newly', s')" by simp
      from Cons.IH [OF this] show ?thesis .
    next
      case True
      with Cons.prems nb False r obtain chosen s2 where
        rest: "fast_sync_round G nl p t as (set_add chosen infected) useless
                 (set_add chosen newly) s2 = Inr (infected', useless', newly', s')"
        by (auto split: sum.splits)
      from Cons.IH [OF rest] length_set_add [of infected chosen] show ?thesis
        by (auto simp: set_set_add distinct_set_add)
    qed
  qed
qed


lemma heappop_Nil: "heappop [] = Inl IndexError"
  by (simp add: heappop_def)

lemma heappop_Inl: "heappop h = Inl e \<Longrightarrow> h = [] \<and> e = IndexError"
  by (auto simp: heappop_def Let_def split: list.splits)

lemma heappop_Min:
  assumes "heappop h = Inr (e, h1)"
  shows "h \<noteq> [] \<and> e = Min (set h) \<and> h1 = remove1 e h"
proof -
  from assms obtain x xs where h: "h = x # xs" and e: "e = fold min xs x"
    and h1: "h1 = remove1 e h"
    by (auto simp: heappop_def Let_def split: list.splits)
  have "e = Min (set h)" using h e Min.set_eq_fold [of x xs] by simp
  with h h1 show ?thesis by simp
qed

lemma heappop_Inr:
  assumes "heappop h = Inr (e, h1)"
  shows "e \<in> set h \<and> (\<forall>x \<in> set h. e \<le> x) \<and> mset h1 = mset h - {#e#}"
proof -
  from heappop_Min [OF assms] have ne: "h \<noteq> []" and m: "e = Min (set h)"
    and h1: "h1 = remove1 e h" by simp_all
  have "Min (set h) \<in> set h" using ne by (intro Min_in) auto
  moreover have "\<forall>x \<in> set h. Min (set h) \<le> x" by simp
  ultimately show ?thesis unfolding m h1 by simp
qed

lemma heappop_Cons: "\<exists>e h1. heappop (x # xs) = Inr (e, h1)"
  by (simp add: heappop_def Let_def)

lemma mset_reschedule:
  "mset (fst (reschedule M G t a newnode heap s)) =
     mset heap + {#(fadd M t (fst (PoissonSample M G OwnDelay t a 1 s)), a)#}
     + (case newnode of None \<Rightarrow> {#}
        | Some ch \<Rightarrow> {#(fadd M t (fst (PoissonSample M G FirstDelay t ch 1
                                  (snd (PoissonSample M G OwnDelay t a 1 s)))), ch)#})"
  by (simp add: reschedule_def PushAsynchronousEvent_def heappush_def
           split: prod.splits option.splits)

lemma push_attempt_cases:
  assumes "push_attempt G nl p t a infected s = Inr (infected', newnode, s1)"
  shows "if fst (rand G PushDraw t a s) < p then infected' = infected \<and> newnode = None
         else (\<exists>nb chosen. py_index nl a = Inr nb \<and> chosen \<in> set nb
                 \<and> infected' = set_add chosen infected
                 \<and> newnode = (if chosen \<in> set infected then None else Some chosen))"
proof (cases "fst (rand G PushDraw t a s) < p")
  case True
  with assms show ?thesis
    by (auto simp: push_attempt_def split: prod.splits)
next
  case False
  with assms obtain nb chosen s2 where "py_index nl a = Inr nb"
    and ch: "random_choice G t a nb (snd (rand G PushDraw t a s)) = Inr (chosen, s2)"
    and "infected' = set_add chosen infected"
    and "newnode = (if chosen \<in> set infected then None else Some chosen)"
    by (auto simp: push_attempt_def split: prod.splits sum.splits if_splits)
  moreover have "chosen \<in> set nb" using ch by (rule random_choice_mem)
  ultimately show ?thesis using False by auto
qed

section \<open>Fixed decisions on a well-formed topology\<close>

lemma py_index_in_range:
  "in_range nl a \<Longrightarrow> py_index nl a = Inr (nl ! nat a)"
  by (simp add: in_range_def py_index_def)

lemma wf_topology_index:
  assumes "wf_topology nl" and "in_range nl a"
  shows "py_index nl a = Inr (nl ! nat a) \<and> nl ! nat a \<noteq> []
           \<and> (\<forall>x \<in> set (nl ! nat a). in_range nl x)"
proof -
  from assms(2) have "nat a < length nl" by (simp add: in_range_def nat_less_iff)
  then have "nl ! nat a \<in> set nl" by simp
  with assms(1) have "nl ! nat a \<noteq> [] \<and> (\<forall>x \<in> set (nl ! nat a). in_range nl x)"
    by (auto simp: wf_topology_def list_all_iff in_range_def)
  with py_index_in_range [OF assms(2)] show ?thesis by simp
qed

lemma pushes_set: "pushes U K nl p t as = (\<Union>a \<in> set as. pushes U K nl p t [a])"
  by (auto simp: pushes_def)

lemma pushes_in_range:
  assumes "wf_topology nl" and "\<forall>a \<in> set as. in_range nl a"
  shows "\<forall>x \<in> pushes U K nl p t as. in_range nl x"
proof
  fix x assume "x \<in> pushes U K nl p t as"
  then obtain a nb where a: "a \<in> set as" and nb: "py_index nl a = Inr nb" "nb \<noteq> []"
    and x: "x = nb ! (K t a mod length nb)" by (auto simp: pushes_def)
  from a assms(2) have "in_range nl a" by simp
  from wf_topology_index [OF assms(1) this] nb have "\<forall>y \<in> set nb. in_range nl y" by simp
  moreover from nb(2) x have "x \<in> set nb" by simp
  ultimately show "in_range nl x" by simp
qed

lemma sync_round_decision_ok:
  assumes "wf_topology nl" and "\<forall>a \<in> set as. in_range nl a"
  shows "\<exists>newly'. sync_round (decision_source U K) nl p t as newly s = Inr (newly', s)"
  using assms(2)
proof (induction as arbitrary: newly)
  case Nil
  show ?case by simp
next
  case (Cons a as)
  from Cons.prems have a: "in_range nl a" and rest: "\<forall>a \<in> set as. in_range nl a" by simp_all
  from wf_topology_index [OF assms(1) a]
  have nb: "py_index nl a = Inr (nl ! nat a)" "nl ! nat a \<noteq> []" by simp_all
  show ?case
    using nb Cons.IH [OF rest]
    by (simp add: rand_decision random_choice_decision)
qed

lemma pushes_cong: "set as = set bs \<Longrightarrow> pushes U K nl p t as = pushes U K nl p t bs"
  by (simp add: pushes_def)

lemma neighbours_of_cong: "set as = set bs \<Longrightarrow> neighbours_of nl as = neighbours_of nl bs"
  by (simp add: neighbours_of_def)

text \<open>One round of the exact synchronous spreader under fixed decisions.\<close>

lemma sync_iter_decision:
  assumes wf: "wf_topology nl" and rng: "\<forall>a \<in> set infected. in_range nl a"
    and d: "distinct infected"
  shows "\<exists>infected'.
      sync_iter M (decision_source U K) nl p c t infected s =
        (if fmul M c (length nl) \<le> real (card (set infected \<union> pushes U K nl p t infected))
         then Return (t + 1) else Continue (t + 1, infected', s))
      \<and> set infected' = set infected \<union> pushes U K nl p t infected
      \<and> distinct infected' \<and> (\<forall>a \<in> set infected'. in_range nl a)"
proof -
  let ?as = "set_order M t infected"
  have sa: "set ?as = set infected" by (rule set_set_order)
  with rng have rng': "\<forall>a \<in> set ?as. in_range nl a" by simp
  from sync_round_decision_ok [OF wf rng', of U K p t "[]" s]
  obtain newly where r: "sync_round (decision_source U K) nl p t ?as [] s = Inr (newly, s)"
    by blast
  from sync_round_decision [OF r] have "set newly = pushes U K nl p t ?as" by simp
  then have nw: "set newly = pushes U K nl p t infected"
    using pushes_cong [OF sa] by simp
  let ?E = "set_union infected newly"
  have E: "set ?E = set infected \<union> pushes U K nl p t infected"
    by (simp add: set_set_union nw)
  have dE: "distinct ?E" using d by (rule distinct_set_union)
  then have len: "length ?E = card (set infected \<union> pushes U K nl p t infected)"
    using E distinct_card [of ?E] by simp
  have "sync_iter M (decision_source U K) nl p c t infected s =
        (if fmul M c (length nl) \<le> real (card (set infected \<union> pushes U K nl p t infected))
         then Return (t + 1) else Continue (t + 1, ?E, s))"
    using r len by (simp add: sync_iter_def)
  moreover have "\<forall>a \<in> set ?E. in_range nl a"
    using rng pushes_in_range [OF wf rng, of U K p t] unfolding E by auto
  ultimately show ?thesis using E dE by blast
qed

lemma infected_after_Suc:
  assumes "set I = infected_after U K nl p src k"
  shows "infected_after U K nl p src (Suc k) = set I \<union> pushes U K nl p k I"
  using assms pushes_set [of U K nl p k I] by simp

declare infected_after.simps(2) [simp del]

section \<open>The threshold is checked only after a round\<close>

lemma sync_round_single:
  assumes "py_index nl a = Inr nb" and "nb \<noteq> []"
  shows "\<exists>newly s'. sync_round G nl p t [a] [] s = Inr (newly, s')"
  using assms by (simp add: random_choice_def split: prod.splits)

text \<open>
  Claim C4, as stated, at two nodes: with \<open>end_criteria = 1/2\<close> the synchronous spreader
  returns 1, not 0.
\<close>

theorem sync_threshold_boundary_not_zero:
  "EstimateSynchronousGossipTime ideal_machine (decision_source (\<lambda>_ _ _. 1 / 2) (\<lambda>_ _. 0))
       0 2 [[1], [0]] 0 (1 / 2) () = Some (Inr 1)
   \<and> EstimateSynchronousGossipTime ideal_machine (decision_source (\<lambda>_ _ _. 1 / 2) (\<lambda>_ _. 0))
       0 2 [[1], [0]] 0 (1 / 2) () \<noteq> Some (Inr 0)"
  by (simp add: estimate_defs run_defs)

text \<open>
  Claim C4, amended: with \<open>end_criteria = 1/N\<close>, where \<open>N > 0\<close> is the length of the
  neighbour list, and a product that is not rounded, the synchronous spreader runs exactly
  one round and returns 1, for every source node that indexes a non-empty neighbour list,
  every failure probability, every random source and every order of iteration. More
  generally it does so whenever the product of \<^verbatim>\<open>end_criteria\<close> and \<open>N\<close>, as the machine
  computes it, is at most 1. (The loop tests the threshold only after a round, so 0 is
  never returned.)
\<close>

theorem sync_threshold_boundary_one_round:
  assumes "py_index neighbor_list source_node = Inr nb"
    and "nb \<noteq> []"
  shows "(0 < length neighbor_list \<and> end_criteria = 1 / real (length neighbor_list) \<longrightarrow>
            EstimateSynchronousGossipTime (M\<lparr>fmul := \<lambda>c n. c * real n\<rparr>) G source_node
              number_of_nodes neighbor_list failure_probability end_criteria s = Some (Inr 1))
     \<and> (fmul M end_criteria (length neighbor_list) \<le> 1 \<longrightarrow>
            EstimateSynchronousGossipTime M G source_node number_of_nodes neighbor_list
              failure_probability end_criteria s = Some (Inr 1))"
proof -
  obtain newly s' where r:
    "sync_round G neighbor_list failure_probability 0 [source_node] [] s = Inr (newly, s')"
    using sync_round_single [OF assms, of G failure_probability 0 s] by blast
  have "1 \<le> length (set_union [source_node] newly)"
    using length_set_union [of "[source_node]" newly] by simp
  then have len: "1 \<le> real (length (set_union [source_node] newly))"
    by simp
  have one: "EstimateSynchronousGossipTime M' G source_node number_of_nodes neighbor_list
              failure_probability end_criteria s = Some (Inr 1)"
    if "fmul M' end_criteria (length neighbor_list) \<le> 1" for M'
  proof -
    have "sync_iter M' G neighbor_list failure_probability end_criteria 0 [source_node] s
            = Return 1"
      using r len that by (simp add: sync_iter_def set_order_single)
    then show ?thesis
      by (simp add: EstimateSynchronousGossipTime_def sync_loop_unfold)
  qed
  show ?thesis
  proof (intro conjI impI)
    assume "0 < length neighbor_list \<and> end_criteria = 1 / real (length neighbor_list)"
    then have "fmul (M\<lparr>fmul := \<lambda>c n. c * real n\<rparr>) end_criteria (length neighbor_list) \<le> 1"
      by simp
    then show "EstimateSynchronousGossipTime (M\<lparr>fmul := \<lambda>c n. c * real n\<rparr>) G source_node
              number_of_nodes neighbor_list failure_probability end_criteria s = Some (Inr 1)"
      by (rule one)
  next
    assume "fmul M end_criteria (length neighbor_list) \<le> 1"
    then show "EstimateSynchronousGossipTime M G source_node number_of_nodes neighbor_list
              failure_probability end_criteria s = Some (Inr 1)"
      by (rule one)
  qed
qed

theorem sync_threshold_boundary_one_round_witness:
  "py_index [[1], [0::int]] 0 = Inr [1] \<and> [1::int] \<noteq> []
   \<and> 0 < length [[1], [0::int]] \<and> (1 / 2 :: real) = 1 / real (length [[1], [0::int]])
   \<and> fmul ideal_machine (1 / 2) (length [[1], [0::int]]) \<le> 1
   \<and> EstimateSynchronousGossipTime (ideal_machine\<lparr>fmul := \<lambda>c n. c * real n\<rparr>)
        (decision_source (\<lambda>_ _ _. 1 / 2) (\<lambda>_ _. 0)) 0 2 [[1], [0]] 0 (1 / 2) ()
        = Some (Inr 1)
   \<and> EstimateSynchronousGossipTime ideal_machine (decision_source (\<lambda>_ _ _. 1 / 2) (\<lambda>_ _. 0))
        0 2 [[1], [0]] 0 (1 / 2) () = Some (Inr 1)"
  using sync_threshold_boundary_one_round
    [of "[[1], [0]]" 0 "[1]" "1 / 2" ideal_machine
        "decision_source (\<lambda>_ _ _. 1 / 2) (\<lambda>_ _. 0)" 2 0 "()"]
  by (simp add: py_index_def ideal_fmul)

section \<open>The node-count argument\<close>

text \<open>
  Claim C10: \<^verbatim>\<open>EstimateSynchronousGossipTime\<close>, \<^verbatim>\<open>FastEstimateSynchronousGossipTime\<close> and
  \<^verbatim>\<open>EstimateAsynchronousGossipTime\<close> return the same result for any two values of
  \<^verbatim>\<open>number_of_nodes\<close>, all other arguments and the random draws being equal: their threshold is
  computed from the length of the neighbour list. \<^verbatim>\<open>FastEstimateAsynchronousGossipTime\<close> does
  read the argument: on the two-node graph it returns at time 1 for \<open>number_of_nodes = 2\<close>
  and fails for \<open>number_of_nodes = 4\<close>.
\<close>

theorem number_of_nodes_not_read:
  "EstimateSynchronousGossipTime M G src n1 nl p c s
     = EstimateSynchronousGossipTime M G src n2 nl p c s
   \<and> FastEstimateSynchronousGossipTime M G src n1 nl p c s
     = FastEstimateSynchronousGossipTime M G src n2 nl p c s
   \<and> EstimateAsynchronousGossipTime M G' src n1 nl p c s'
     = EstimateAsynchronousGossipTime M G' src n2 nl p c s'
   \<and> FastEstimateAsynchronousGossipTime ideal_machine
       (decision_source (\<lambda>_ _ _. exp (- 1)) (\<lambda>_ _. 0))
       0 2 [[1], [0]] 0 1 () = Some (Inr (Fin 1))
   \<and> FastEstimateAsynchronousGossipTime ideal_machine
       (decision_source (\<lambda>_ _ _. exp (- 1)) (\<lambda>_ _. 0))
       0 4 [[1], [0]] 0 1 () = Some (Inl IndexError)"
  by (simp add: estimate_defs run_defs)

section \<open>The infected set only grows\<close>

text \<open>
  Claim C5: in each of the four spreaders, one iteration of the loop (a round of the
  synchronous ones, an event of the asynchronous ones) that does not leave the loop hands an
  infected set to the next iteration that contains the previous one and is at least
  as large.
\<close>

theorem infected_set_monotone:
  "(sync_iter M G nl p c t infected s = Continue (t1, infected1, s1)
      \<longrightarrow> set infected \<subseteq> set infected1 \<and> length infected \<le> length infected1)
   \<and> (fast_sync_iter M G nl p c t infected useful s = Continue (t2, infected2, useful2, s2)
      \<longrightarrow> set infected \<subseteq> set infected2 \<and> length infected \<le> length infected2)
   \<and> (async_iter M H nl p c infected heap z = Continue (infected3, heap3, z3)
      \<longrightarrow> set infected \<subseteq> set infected3 \<and> length infected \<le> length infected3)
   \<and> (fast_async_iter M H nl p c n infected heap z = Continue (infected4, heap4, z4)
      \<longrightarrow> set infected \<subseteq> set infected4 \<and> length infected \<le> length infected4)"
proof (intro conjI impI)
  assume "sync_iter M G nl p c t infected s = Continue (t1, infected1, s1)"
  then obtain newly where i: "infected1 = set_union infected newly"
    by (auto simp: sync_iter_def Let_def split: sum.splits if_splits)
  show "set infected \<subseteq> set infected1" by (simp add: i set_set_union)
  show "length infected \<le> length infected1" by (simp add: i length_set_union)
next
  assume "fast_sync_iter M G nl p c t infected useful s = Continue (t2, infected2, useful2, s2)"
  then obtain useless newly s' where
    r: "fast_sync_round G nl p t (set_order M t useful) infected [] [] s
          = Inr (infected2, useless, newly, s')"
    by (auto simp: fast_sync_iter_def Let_def split: sum.splits if_splits)
  from fast_sync_round_mono [OF r]
  show "set infected \<subseteq> set infected2" and "length infected \<le> length infected2" by simp_all
next
  assume "async_iter M H nl p c infected heap z = Continue (infected3, heap3, z3)"
  then obtain ta a newnode z' where
    r: "push_attempt H nl p ta a infected z = Inr (infected3, newnode, z')"
    by (auto simp: async_iter_def split: sum.splits if_splits prod.splits)
  from push_attempt_mono [OF r]
  show "set infected \<subseteq> set infected3" and "length infected \<le> length infected3" by simp_all
next
  assume a: "fast_async_iter M H nl p c n infected heap z = Continue (infected4, heap4, z4)"
  then have "infected4 = infected
     \<or> (\<exists>ta a newnode z'. push_attempt H nl p ta a infected z = Inr (infected4, newnode, z'))"
    by (auto simp: fast_async_iter_def split: sum.splits if_splits prod.splits)
  then have "set infected \<subseteq> set infected4 \<and> length infected \<le> length infected4"
  proof
    assume "infected4 = infected"
    then show ?thesis by simp
  next
    assume "\<exists>ta a newnode z'. push_attempt H nl p ta a infected z = Inr (infected4, newnode, z')"
    then obtain ta a newnode z' where
      "push_attempt H nl p ta a infected z = Inr (infected4, newnode, z')" by blast
    from push_attempt_mono [OF this] show ?thesis by simp
  qed
  then show "set infected \<subseteq> set infected4" and "length infected \<le> length infected4" by simp_all
qed

theorem infected_set_monotone_witness:
  "sync_iter ideal_machine (decision_source (\<lambda>_ _ _. 1 / 2) (\<lambda>_ _. 0)) [[1], [0, 2], [1]] 0 1 0 [0] ()
     = Continue (1, [0, 1], ())
   \<and> fast_sync_iter ideal_machine (decision_source (\<lambda>_ _ _. 1 / 2) (\<lambda>_ _. 0)) [[1], [0, 2], [1]] 0 1 0
       [0] [0] () = Continue (1, [0, 1], [0, 1], ())
   \<and> async_iter ideal_machine (decision_source (\<lambda>_ _ _. exp (- 1)) (\<lambda>_ _. 0)) [[1], [0, 2], [1]] 0 1
       [0] [(Fin 1, 0)] () = Continue ([0, 1], [(Fin 2, 1), (Fin 2, 0)], ())
   \<and> fast_async_iter ideal_machine (decision_source (\<lambda>_ _ _. exp (- 1)) (\<lambda>_ _. 0)) [[1], [0, 2], [1]] 0 1 3
       [0] [(Fin 1, 0)] () = Continue ([0, 1], [(Fin 2, 1), (Fin 2, 0)], ())
   \<and> set [0 :: int] \<subseteq> set [0, 1] \<and> length [0 :: int] \<le> length [0, 1 :: int]"
  using infected_set_monotone
    [where M = ideal_machine and G = "decision_source (\<lambda>_ _ _. 1 / 2) (\<lambda>_ _. 0)"
       and H = "decision_source (\<lambda>_ _ _. exp (- 1)) (\<lambda>_ _. 0)"
       and nl = "[[1], [0, 2], [1]]" and p = 0 and c = 1 and t = 0 and infected = "[0]"
       and s = "()" and z = "()" and useful = "[0]" and heap = "[(Fin 1, 0)]" and n = 3
       and ?t1.0 = 1 and ?infected1.0 = "[0, 1]" and ?s1.0 = "()"
       and ?t2.0 = 1 and ?infected2.0 = "[0, 1]" and ?useful2.0 = "[0, 1]" and ?s2.0 = "()"
       and ?infected3.0 = "[0, 1]" and ?heap3.0 = "[(Fin 2, 1), (Fin 2, 0)]" and ?z3.0 = "()"
       and ?infected4.0 = "[0, 1]" and ?heap4.0 = "[(Fin 2, 1), (Fin 2, 0)]" and ?z4.0 = "()"]
  by (simp add: run_defs)

section \<open>The exact synchronous spreader, round by round\<close>

lemma sync_iterations_counter:
  "iterations (\<lambda>(t, infected, s). sync_iter M G nl p c t infected s) k (t0, I0, s0)
     = Some (t, I, s) \<Longrightarrow> t = t0 + k"
proof (induction k arbitrary: t I s)
  case 0
  then show ?case by simp
next
  case (Suc k)
  from Suc.prems obtain t1 I1 s1 where
    i: "iterations (\<lambda>(t, infected, s). sync_iter M G nl p c t infected s) k (t0, I0, s0)
          = Some (t1, I1, s1)"
    and b: "sync_iter M G nl p c t1 I1 s1 = Continue (t, I, s)"
    by (auto split: option.splits outcome.splits)
  from b have "t = t1 + 1"
    by (auto simp: sync_iter_def Let_def split: sum.splits if_splits)
  with Suc.IH [OF i] show ?case by simp
qed

lemma sync_iter_returns_next: "sync_iter M G nl p c t I s = Return r \<Longrightarrow> r = t + 1"
  by (auto simp: sync_iter_def Let_def split: sum.splits if_splits)

lemma sync_states_exist:
  assumes wf: "wf_topology nl" and src: "in_range nl src"
  shows "(\<forall>j. 0 < j \<and> j \<le> k \<longrightarrow>
            \<not> fmul M c (length nl) \<le> real (card (infected_after U K nl p src j)))
    \<Longrightarrow> \<exists>I. iterations (\<lambda>(t, infected, s). sync_iter M (decision_source U K) nl p c t infected s)
               k (0, [src], s) = Some (k, I, s)
            \<and> set I = infected_after U K nl p src k \<and> distinct I
            \<and> (\<forall>a \<in> set I. in_range nl a)"
proof (induction k)
  case 0
  show ?case using src by simp
next
  case (Suc k)
  from Suc.prems have
    "\<forall>j. 0 < j \<and> j \<le> k \<longrightarrow>
       \<not> fmul M c (length nl) \<le> real (card (infected_after U K nl p src j))"
    by simp
  from Suc.IH [OF this] obtain I where
    i: "iterations (\<lambda>(t, infected, s). sync_iter M (decision_source U K) nl p c t infected s)
          k (0, [src], s) = Some (k, I, s)"
    and I: "set I = infected_after U K nl p src k" and d: "distinct I"
    and rng: "\<forall>a \<in> set I. in_range nl a" by blast
  from sync_iter_decision [OF wf rng d, of M U K p c k s] obtain I' where
    it: "sync_iter M (decision_source U K) nl p c k I s =
        (if fmul M c (length nl) \<le> real (card (set I \<union> pushes U K nl p k I))
         then Return (k + 1) else Continue (k + 1, I', s))"
    and I': "set I' = set I \<union> pushes U K nl p k I" and d': "distinct I'"
    and rng': "\<forall>a \<in> set I'. in_range nl a" by blast
  have nx: "infected_after U K nl p src (Suc k) = set I \<union> pushes U K nl p k I"
    using I by (rule infected_after_Suc)
  from Suc.prems have
    "\<not> fmul M c (length nl) \<le> real (card (infected_after U K nl p src (Suc k)))"
    by simp
  with it nx have "sync_iter M (decision_source U K) nl p c k I s = Continue (Suc k, I', s)"
    by simp
  with i have
    "iterations (\<lambda>(t, infected, s). sync_iter M (decision_source U K) nl p c t infected s)
       (Suc k) (0, [src], s) = Some (Suc k, I', s)"
    by simp
  with I' d' rng' nx show ?case by simp
qed

lemma sync_states_below:
  assumes wf: "wf_topology nl" and src: "in_range nl src"
  shows "iterations (\<lambda>(t, infected, s). sync_iter M (decision_source U K) nl p c t infected s)
           k (0, [src], s) = Some st
    \<Longrightarrow> \<forall>j. 0 < j \<and> j \<le> k \<longrightarrow>
            \<not> fmul M c (length nl) \<le> real (card (infected_after U K nl p src j))"
proof (induction k arbitrary: st)
  case 0
  show ?case by auto
next
  case (Suc k)
  let ?body = "\<lambda>(t, infected, s). sync_iter M (decision_source U K) nl p c t infected s"
  from Suc.prems obtain st1 where i: "iterations ?body k (0, [src], s) = Some st1"
    and b: "?body st1 = Continue st"
    by (auto split: option.splits outcome.splits)
  from Suc.IH [OF i] have below:
    "\<forall>j. 0 < j \<and> j \<le> k \<longrightarrow>
       \<not> fmul M c (length nl) \<le> real (card (infected_after U K nl p src j))" .
  from sync_states_exist [OF wf src below, of s] i obtain I where
    st1: "st1 = (k, I, s)" and I: "set I = infected_after U K nl p src k"
    and d: "distinct I" and rng: "\<forall>a \<in> set I. in_range nl a" by auto
  from sync_iter_decision [OF wf rng d, of M U K p c k s] obtain I' where
    it: "sync_iter M (decision_source U K) nl p c k I s =
        (if fmul M c (length nl) \<le> real (card (set I \<union> pushes U K nl p k I))
         then Return (k + 1) else Continue (k + 1, I', s))" by blast
  have nx: "infected_after U K nl p src (Suc k) = set I \<union> pushes U K nl p k I"
    using I by (rule infected_after_Suc)
  from b st1 it nx have
    "\<not> fmul M c (length nl) \<le> real (card (infected_after U K nl p src (Suc k)))"
    by (auto split: if_splits)
  with below show ?case by (auto simp: le_Suc_eq)
qed

lemma sync_returns_iff:
  assumes wf: "wf_topology nl" and src: "in_range nl src"
  shows "EstimateSynchronousGossipTime M (decision_source U K) src n nl p c s = Some (Inr r)
    \<longleftrightarrow> 0 < r
        \<and> fmul M c (length nl) \<le> real (card (infected_after U K nl p src r))
        \<and> (\<forall>j. 0 < j \<and> j < r \<longrightarrow>
              \<not> fmul M c (length nl) \<le> real (card (infected_after U K nl p src j)))"
proof
  let ?body = "\<lambda>(t, infected, s). sync_iter M (decision_source U K) nl p c t infected s"
  assume "EstimateSynchronousGossipTime M (decision_source U K) src n nl p c s = Some (Inr r)"
  then have "while_True ?body (0, [src], s) = Some (Inr r)"
    by (simp add: EstimateSynchronousGossipTime_def sync_loop_def)
  then obtain k st where i: "iterations ?body k (0, [src], s) = Some st"
    and b: "?body st = Return r"
    unfolding while_True_returns_iff by blast
  from sync_states_below [OF wf src i] have below:
    "\<forall>j. 0 < j \<and> j \<le> k \<longrightarrow>
       \<not> fmul M c (length nl) \<le> real (card (infected_after U K nl p src j))" .
  from sync_states_exist [OF wf src below, of s] i obtain I where
    st: "st = (k, I, s)" and I: "set I = infected_after U K nl p src k"
    and d: "distinct I" and rng: "\<forall>a \<in> set I. in_range nl a" by auto
  from sync_iter_decision [OF wf rng d, of M U K p c k s] obtain I' where
    it: "sync_iter M (decision_source U K) nl p c k I s =
        (if fmul M c (length nl) \<le> real (card (set I \<union> pushes U K nl p k I))
         then Return (k + 1) else Continue (k + 1, I', s))" by blast
  have nx: "infected_after U K nl p src (Suc k) = set I \<union> pushes U K nl p k I"
    using I by (rule infected_after_Suc)
  from b st it nx have r: "r = Suc k"
    and th: "fmul M c (length nl) \<le> real (card (infected_after U K nl p src (Suc k)))"
    by (auto split: if_splits)
  from below have "\<forall>j. 0 < j \<and> j < Suc k \<longrightarrow>
       \<not> fmul M c (length nl) \<le> real (card (infected_after U K nl p src j))"
    by (simp add: less_Suc_eq_le)
  with r th show "0 < r
        \<and> fmul M c (length nl) \<le> real (card (infected_after U K nl p src r))
        \<and> (\<forall>j. 0 < j \<and> j < r \<longrightarrow>
              \<not> fmul M c (length nl) \<le> real (card (infected_after U K nl p src j)))"
    by simp
next
  let ?body = "\<lambda>(t, infected, s). sync_iter M (decision_source U K) nl p c t infected s"
  assume h: "0 < r
        \<and> fmul M c (length nl) \<le> real (card (infected_after U K nl p src r))
        \<and> (\<forall>j. 0 < j \<and> j < r \<longrightarrow>
              \<not> fmul M c (length nl) \<le> real (card (infected_after U K nl p src j)))"
  then obtain k where r: "r = Suc k" by (cases r) auto
  from h r have below:
    "\<forall>j. 0 < j \<and> j \<le> k \<longrightarrow>
       \<not> fmul M c (length nl) \<le> real (card (infected_after U K nl p src j))"
    by (simp add: less_Suc_eq_le)
  from sync_states_exist [OF wf src below, of s] obtain I where
    i: "iterations ?body k (0, [src], s) = Some (k, I, s)"
    and I: "set I = infected_after U K nl p src k"
    and d: "distinct I" and rng: "\<forall>a \<in> set I. in_range nl a" by blast
  from sync_iter_decision [OF wf rng d, of M U K p c k s] obtain I' where
    it: "sync_iter M (decision_source U K) nl p c k I s =
        (if fmul M c (length nl) \<le> real (card (set I \<union> pushes U K nl p k I))
         then Return (k + 1) else Continue (k + 1, I', s))" by blast
  have nx: "infected_after U K nl p src (Suc k) = set I \<union> pushes U K nl p k I"
    using I by (rule infected_after_Suc)
  from h r it nx have "?body (k, I, s) = Return r" by simp
  from iterations_return [OF i this]
  show "EstimateSynchronousGossipTime M (decision_source U K) src n nl p c s = Some (Inr r)"
    by (simp add: EstimateSynchronousGossipTime_def sync_loop_def)
qed

text \<open>
  Claim C2: in \<^verbatim>\<open>EstimateSynchronousGossipTime\<close> the push decisions and neighbour selections
  of a round are made for the nodes of the start-of-round infected set only, in whatever
  order the set is visited: every node selected in the round is a neighbour of a node
  infected at the start of the round, and under a source of fixed decisions the selected
  nodes are exactly the targets of the successful pushes of the start-of-round infected
  nodes. After the round the selections are merged into the infected set (whose length is
  its cardinality), the round counter is incremented, and the body returns the counter
  exactly when the size of the merged set is at least the product of \<^verbatim>\<open>end_criteria\<close>
  and the number of adjacency lists, as the machine computes it; otherwise the loop goes on
  with the merged set.

  The function plays these rounds from the set that holds the source alone and the counter
  0: it returns \<open>r\<close> exactly when \<open>r = k + 1\<close> for a number \<open>k\<close> of rounds that did not
  return, after which round \<open>k + 1\<close> returns. On a topology whose adjacency lists are
  non-empty and name nodes \<open>0, \<dots>, N - 1\<close> only, and under fixed decisions, it returns
  \<open>r\<close> exactly when \<open>r\<close> is the first round after which the infected set of the described
  process has at least that many elements.
\<close>

theorem sync_round_semantics:
  "(sync_round G nl p t (set_order M t infected) [] s = Inr (newly, s') \<longrightarrow>
       set newly \<subseteq> neighbours_of nl infected
     \<and> (\<forall>U K. G = decision_source U K \<longrightarrow> set newly = pushes U K nl p t infected)
     \<and> set (set_union infected newly) = set infected \<union> set newly
     \<and> (distinct infected \<longrightarrow>
          length (set_union infected newly) = card (set infected \<union> set newly))
     \<and> sync_iter M G nl p c t infected s =
         (if fmul M c (length nl) \<le> real (length (set_union infected newly))
          then Return (t + 1) else Continue (t + 1, set_union infected newly, s')))
   \<and> (EstimateSynchronousGossipTime M G src n nl p c s = Some (Inr r) \<longleftrightarrow>
        (\<exists>k I z. iterations (\<lambda>(t, infected, s). sync_iter M G nl p c t infected s) k
                   (0, [src], s) = Some (k, I, z)
               \<and> sync_iter M G nl p c k I z = Return r \<and> r = k + 1))
   \<and> (wf_topology nl \<and> in_range nl src \<longrightarrow>
        (EstimateSynchronousGossipTime M (decision_source U K) src n nl p c z = Some (Inr r)
         \<longleftrightarrow> 0 < r
            \<and> fmul M c (length nl) \<le> real (card (infected_after U K nl p src r))
            \<and> (\<forall>j. 0 < j \<and> j < r \<longrightarrow>
                  \<not> fmul M c (length nl) \<le> real (card (infected_after U K nl p src j)))))"
proof (intro conjI impI allI)
  assume r: "sync_round G nl p t (set_order M t infected) [] s = Inr (newly, s')"
  have sa: "set (set_order M t infected) = set infected" by (rule set_set_order)
  show "set newly \<subseteq> neighbours_of nl infected"
    using sync_round_newly [OF r] neighbours_of_cong [OF sa, of nl] by simp
  show "set (set_union infected newly) = set infected \<union> set newly"
    by (rule set_set_union)
  show "sync_iter M G nl p c t infected s =
         (if fmul M c (length nl) \<le> real (length (set_union infected newly))
          then Return (t + 1) else Continue (t + 1, set_union infected newly, s'))"
    using r by (simp add: sync_iter_def)
  {
    fix U K assume "G = decision_source U K"
    with r have "set newly = pushes U K nl p t (set_order M t infected)"
      using sync_round_decision [of U K nl p t "set_order M t infected" "[]" s newly s'] by simp
    then show "set newly = pushes U K nl p t infected"
      using pushes_cong [OF sa] by simp
  }
  {
    assume "distinct infected"
    then have "distinct (set_union infected newly)" by (rule distinct_set_union)
    then have "length (set_union infected newly) = card (set (set_union infected newly))"
      by (simp add: distinct_card)
    then show "length (set_union infected newly) = card (set infected \<union> set newly)"
      by (simp add: set_set_union)
  }
next
  let ?body = "\<lambda>(t, infected, s). sync_iter M G nl p c t infected s"
  show "EstimateSynchronousGossipTime M G src n nl p c s = Some (Inr r) \<longleftrightarrow>
        (\<exists>k I z. iterations ?body k (0, [src], s) = Some (k, I, z)
               \<and> sync_iter M G nl p c k I z = Return r \<and> r = k + 1)"
  proof
    assume "EstimateSynchronousGossipTime M G src n nl p c s = Some (Inr r)"
    then have "while_True ?body (0, [src], s) = Some (Inr r)"
      by (simp add: EstimateSynchronousGossipTime_def sync_loop_def)
    then obtain k st where i: "iterations ?body k (0, [src], s) = Some st"
      and b: "?body st = Return r"
      unfolding while_True_returns_iff by blast
    obtain t I z where st: "st = (t, I, z)" by (cases st)
    from sync_iterations_counter [OF i [unfolded st]] have t: "t = k" by simp
    from b st t have ret: "sync_iter M G nl p c k I z = Return r" by simp
    from sync_iter_returns_next [OF ret] i st t ret
    show "\<exists>k I z. iterations ?body k (0, [src], s) = Some (k, I, z)
               \<and> sync_iter M G nl p c k I z = Return r \<and> r = k + 1"
      by blast
  next
    assume "\<exists>k I z. iterations ?body k (0, [src], s) = Some (k, I, z)
               \<and> sync_iter M G nl p c k I z = Return r \<and> r = k + 1"
    then obtain k I z where i: "iterations ?body k (0, [src], s) = Some (k, I, z)"
      and b: "sync_iter M G nl p c k I z = Return r" by blast
    from b have "?body (k, I, z) = Return r" by simp
    from iterations_return [OF i this]
    show "EstimateSynchronousGossipTime M G src n nl p c s = Some (Inr r)"
      by (simp add: EstimateSynchronousGossipTime_def sync_loop_def)
  qed
next
  assume "wf_topology nl \<and> in_range nl src"
  then have wf: "wf_topology nl" and src: "in_range nl src" by simp_all
  show "EstimateSynchronousGossipTime M (decision_source U K) src n nl p c z = Some (Inr r)
         \<longleftrightarrow> 0 < r
            \<and> fmul M c (length nl) \<le> real (card (infected_after U K nl p src r))
            \<and> (\<forall>j. 0 < j \<and> j < r \<longrightarrow>
                  \<not> fmul M c (length nl) \<le> real (card (infected_after U K nl p src j)))"
    by (rule sync_returns_iff [OF wf src])
qed

theorem sync_round_semantics_witness:
  "sync_round (decision_source (\<lambda>_ _ _. 1 / 2) (\<lambda>_ _. 1)) [[1], [0, 2], [1]] 0 1
       (set_order ideal_machine 1 [0, 1]) [] () = Inr ([1, 2], ())
   \<and> set [1, 2] \<subseteq> neighbours_of [[1], [0, 2], [1]] [0, 1]
   \<and> sync_iter ideal_machine (decision_source (\<lambda>_ _ _. 1 / 2) (\<lambda>_ _. 1))
        [[1], [0, 2], [1]] 0 1 1 [0, 1] () = Return 2
   \<and> wf_topology [[1], [0, 2], [1]] \<and> in_range [[1], [0, 2], [1]] 0
   \<and> infected_after (\<lambda>_ _ _. 1 / 2) (\<lambda>_ _. 1) [[1], [0, 2], [1]] 0 0 1 = {0, 1}
   \<and> infected_after (\<lambda>_ _ _. 1 / 2) (\<lambda>_ _. 1) [[1], [0, 2], [1]] 0 0 2 = {0, 1, 2}
   \<and> EstimateSynchronousGossipTime ideal_machine (decision_source (\<lambda>_ _ _. 1 / 2) (\<lambda>_ _. 1))
        0 3 [[1], [0, 2], [1]] 0 1 () = Some (Inr 2)"
proof -
  let ?U = "\<lambda>(_ :: call_site) (_ :: nat) (_ :: int). 1 / 2 :: real"
  let ?K = "\<lambda>(_ :: nat) (_ :: int). 1 :: nat"
  let ?nl = "[[1], [0, 2], [1 :: int]]"
  have r: "sync_round (decision_source ?U ?K) ?nl 0 1 (set_order ideal_machine 1 [0, 1]) [] ()
             = Inr ([1, 2], ())"
    by (simp add: run_defs)
  have wf: "wf_topology ?nl" by (simp add: wf_topology_def)
  have src: "in_range ?nl 0" by (simp add: in_range_def)
  have q0: "pushes ?U ?K ?nl 0 t [0] = {1}" for t
    by (subst pushes_single_ok [where nb = "[1]"]) (simp_all add: py_index_def)
  have q1: "pushes ?U ?K ?nl 0 t [1] = {2}" for t
    by (subst pushes_single_ok [where nb = "[0, 2]"]) (simp_all add: py_index_def)
  have i1: "infected_after ?U ?K ?nl 0 0 (Suc 0) = {0, 1}"
    by (simp only: infected_after.simps UN_insert UN_empty q0) auto
  have i2: "infected_after ?U ?K ?nl 0 0 (Suc (Suc 0)) = {0, 1, 2}"
    by (simp only: infected_after.simps(2) [of _ _ _ _ _ "Suc 0"] i1 UN_insert UN_empty q0 q1)
      auto
  note th = sync_round_semantics [where G = "decision_source ?U ?K" and nl = ?nl and p = 0
      and t = 1 and M = ideal_machine and infected = "[0, 1]" and s = "()"
      and newly = "[1, 2]" and s' = "()" and c = 1 and src = 0 and n = 3 and r = 2
      and U = ?U and K = ?K and z = "()"]
  from th r have a: "set [1, 2] \<subseteq> neighbours_of ?nl [0, 1]"
    by blast
  from th r have "sync_iter ideal_machine (decision_source ?U ?K) ?nl 0 1 1 [0, 1] () =
         (if fmul ideal_machine 1 (length ?nl) \<le> real (length (set_union [0, 1] [1, 2]))
          then Return (1 + 1) else Continue (1 + 1, set_union [0, 1] [1, 2], ()))"
    by blast
  then have b: "sync_iter ideal_machine (decision_source ?U ?K) ?nl 0 1 1 [0, 1] () = Return 2"
    by (simp add: set_union_def set_add_def ideal_fmul)
  have below: "\<forall>j. 0 < j \<and> j < 2 \<longrightarrow>
      \<not> fmul ideal_machine 1 (length ?nl) \<le> real (card (infected_after ?U ?K ?nl 0 0 j))"
  proof (intro allI impI)
    fix j :: nat assume "0 < j \<and> j < 2"
    then have "j = Suc 0" by simp
    with i1 show "\<not> fmul ideal_machine 1 (length ?nl)
                 \<le> real (card (infected_after ?U ?K ?nl 0 0 j))"
      by (simp add: ideal_fmul)
  qed
  have i1': "infected_after ?U ?K ?nl 0 0 1 = {0, 1}" using i1 by simp
  have i2': "infected_after ?U ?K ?nl 0 0 2 = {0, 1, 2}" using i2 by (simp add: numeral_2_eq_2)
  from i2' have at:
    "fmul ideal_machine 1 (length ?nl) \<le> real (card (infected_after ?U ?K ?nl 0 0 2))"
    by (simp add: ideal_fmul)
  from th wf src at below have e:
    "EstimateSynchronousGossipTime ideal_machine (decision_source ?U ?K) 0 3 ?nl 0 1 ()
       = Some (Inr 2)"
    by simp
  from r a b wf src i1' i2' e show ?thesis by blast
qed

section \<open>The exact asynchronous spreader, event by event\<close>

lemma exponential_sample:
  assumes "0 < u" and "u < 1"
  shows "neg_log_div ideal_machine u 1 = Fin (- ln u) \<and> 0 < - ln u
     \<and> (\<forall>x. x < - ln u \<longleftrightarrow> u < exp (- x))"
proof (intro conjI allI)
  show "neg_log_div ideal_machine u 1 = Fin (- ln u)"
    using assms(1) by (simp add: ideal_neg_log_div)
  show "0 < - ln u" using assms by simp
  fix x
  have "(u < exp (- x)) = (exp (ln u) < exp (- x))" using assms(1) by simp
  also have "\<dots> = (ln u < - x)" by (rule exp_less_cancel_iff)
  also have "\<dots> = (x < - ln u)" by auto
  finally show "x < - ln u \<longleftrightarrow> u < exp (- x)" by simp
qed

text \<open>
  Claim C3: an iteration of \<^verbatim>\<open>EstimateAsynchronousGossipTime\<close> pops an earliest event
  \<open>(t, a)\<close> of the heap and makes one push attempt for \<open>a\<close>. When the uniform failure draw
  is below the failure probability, nothing is infected. Otherwise the generator draws an
  index \<open>k\<close>, the neighbour at position \<open>k\<close> of the adjacency list of \<open>a\<close> (counted
  modulo its length) is chosen and added to the infected set; every position \<open>i\<close> of the
  list is chosen by exactly the index draw \<open>i\<close>, so that a uniform index gives a uniformly
  chosen neighbour. The threshold, the product
  of \<^verbatim>\<open>end_criteria\<close> and the number of adjacency lists as the machine computes it, is then
  tested on the infected set as it stands after this attempt, and \<open>t\<close> is returned when
  it is met. Otherwise the heap receives the next activation of \<open>a\<close> at the sum of \<open>t\<close>
  and a sample, the negated logarithm of a fresh uniform draw over the rate 1, and, if and
  only if the chosen node was not infected before, the first activation of the chosen node
  at the sum of \<open>t\<close> and another such sample.

  The function runs these iterations from the infected set that holds the source alone
  and the heap that holds the first activation of the source at 0 plus a sample: it
  returns \<open>r\<close> exactly when, after some number of iterations that did not return, the
  next one returns \<open>r\<close>.

  Without rounding, the sample of a uniform draw \<open>u\<close> in \<open>(0, 1)\<close> is \<open>- ln u\<close>, which
  exceeds \<open>x\<close> exactly when \<open>u < exp (- x)\<close>: it is exponentially distributed with rate 1
  when the draw is uniform.
\<close>

theorem async_event_semantics:
  assumes pop: "heappop heap = Inr ((t, a), heap1)"
  shows "(t, a) \<in> set heap \<and> (\<forall>e \<in> set heap. (t, a) \<le> e)
     \<and> mset heap1 = mset heap - {#(t, a)#}
     \<and> (fst (rand G PushDraw t a s) < p \<longrightarrow>
          (let s1 = snd (rand G PushDraw t a s);
               (u1, s2) = rand G OwnDelay t a s1;
               own = (fadd M t (neg_log_div M u1 1), a)
           in async_iter M G nl p c infected heap s =
                (if fmul M c (length nl) \<le> real (length infected) then Return t
                 else Continue (infected, own # heap1, s2))))
     \<and> (p \<le> fst (rand G PushDraw t a s) \<and> py_index nl a = Inr nb \<and> nb \<noteq> [] \<longrightarrow>
          (let s1 = snd (rand G PushDraw t a s);
               (k, s2) = choice G t a s1;
               chosen = nb ! (k mod length nb);
               infected' = set_add chosen infected;
               (u1, s3) = rand G OwnDelay t a s2;
               own = (fadd M t (neg_log_div M u1 1), a);
               (u2, s4) = rand G FirstDelay t chosen s3;
               first = (fadd M t (neg_log_div M u2 1), chosen)
           in async_iter M G nl p c infected heap s =
                (if fmul M c (length nl) \<le> real (length infected') then Return t
                 else if chosen \<in> set infected then Continue (infected', own # heap1, s3)
                 else Continue (infected', first # own # heap1, s4))))
     \<and> (EstimateAsynchronousGossipTime M G src n nl p c z = Some (Inr r) \<longleftrightarrow>
          (\<exists>k st. iterations (\<lambda>(infected, heap, s). async_iter M G nl p c infected heap s) k
                     ([src],
                      [(fadd M (Fin 0) (neg_log_div M (fst (rand G FirstDelay (Fin 0) src z)) 1),
                        src)],
                      snd (rand G FirstDelay (Fin 0) src z)) = Some st
                 \<and> (case st of (infected, heap, s) \<Rightarrow> async_iter M G nl p c infected heap s)
                     = Return r))
     \<and> (i < length nb \<and> choice G t a z1 = (i, z2) \<longrightarrow>
          random_choice G t a nb z1 = Inr (nb ! i, z2))
     \<and> (0 < u \<and> u < 1 \<longrightarrow>
          neg_log_div ideal_machine u 1 = Fin (- ln u) \<and> 0 < - ln u
          \<and> (\<forall>x. x < - ln u \<longleftrightarrow> u < exp (- x)))"
proof (intro conjI impI)
  from heappop_Inr [OF pop]
  show "(t, a) \<in> set heap" and "\<forall>e \<in> set heap. (t, a) \<le> e"
    and "mset heap1 = mset heap - {#(t, a)#}" by simp_all
next
  obtain u0 s0 where r0: "rand G PushDraw t a s = (u0, s0)" by (cases "rand G PushDraw t a s")
  assume "fst (rand G PushDraw t a s) < p"
  with r0 have "\<not> p \<le> u0" by simp
  then show "let s1 = snd (rand G PushDraw t a s);
               (u1, s2) = rand G OwnDelay t a s1;
               own = (fadd M t (neg_log_div M u1 1), a)
           in async_iter M G nl p c infected heap s =
                (if fmul M c (length nl) \<le> real (length infected) then Return t
                 else Continue (infected, own # heap1, s2))"
    using pop r0
    by (simp add: async_iter_def push_attempt_def reschedule_def PoissonSample_def
        PushAsynchronousEvent_def heappush_def Let_def split: prod.splits)
next
  obtain u0 s0 where r0: "rand G PushDraw t a s = (u0, s0)" by (cases "rand G PushDraw t a s")
  assume "p \<le> fst (rand G PushDraw t a s) \<and> py_index nl a = Inr nb \<and> nb \<noteq> []"
  with r0 have "p \<le> u0" and "py_index nl a = Inr nb" and "nb \<noteq> []" by simp_all
  then show "let s1 = snd (rand G PushDraw t a s);
               (k, s2) = choice G t a s1;
               chosen = nb ! (k mod length nb);
               infected' = set_add chosen infected;
               (u1, s3) = rand G OwnDelay t a s2;
               own = (fadd M t (neg_log_div M u1 1), a);
               (u2, s4) = rand G FirstDelay t chosen s3;
               first = (fadd M t (neg_log_div M u2 1), chosen)
           in async_iter M G nl p c infected heap s =
                (if fmul M c (length nl) \<le> real (length infected') then Return t
                 else if chosen \<in> set infected then Continue (infected', own # heap1, s3)
                 else Continue (infected', first # own # heap1, s4))"
    using pop r0
    by (simp add: async_iter_def push_attempt_def random_choice_def reschedule_def
        PoissonSample_def PushAsynchronousEvent_def heappush_def Let_def split: prod.splits)
next
  show "EstimateAsynchronousGossipTime M G src n nl p c z = Some (Inr r) \<longleftrightarrow>
          (\<exists>k st. iterations (\<lambda>(infected, heap, s). async_iter M G nl p c infected heap s) k
                     ([src],
                      [(fadd M (Fin 0) (neg_log_div M (fst (rand G FirstDelay (Fin 0) src z)) 1),
                        src)],
                      snd (rand G FirstDelay (Fin 0) src z)) = Some st
                 \<and> (case st of (infected, heap, s) \<Rightarrow> async_iter M G nl p c infected heap s)
                     = Return r)"
    by (simp add: EstimateAsynchronousGossipTime_def async_loop_def PoissonSample_def
        PushAsynchronousEvent_def heappush_def Let_def while_True_returns_iff
        split: prod.splits)
next
  assume "i < length nb \<and> choice G t a z1 = (i, z2)"
  then show "random_choice G t a nb z1 = Inr (nb ! i, z2)"
    by (auto simp: random_choice_def)
next
  assume "0 < u \<and> u < 1"
  then show "neg_log_div ideal_machine u 1 = Fin (- ln u)" and "0 < - ln u"
    and "\<forall>x. x < - ln u \<longleftrightarrow> u < exp (- x)"
    using exponential_sample [of u] by blast+
qed

theorem async_event_semantics_witness:
  "heappop [(Fin 3, 1), (Fin 1, 0)] = Inr ((Fin 1, 0), [(Fin 3, 1)])
   \<and> async_iter ideal_machine (decision_source (\<lambda>_ _ _. exp (- 1)) (\<lambda>_ _. 1))
        [[1, 2], [0, 2], [0, 1]] 1 2 [0, 1] [(Fin 3, 1), (Fin 1, 0)] ()
       = Continue ([0, 1], [(Fin 2, 0), (Fin 3, 1)], ())
   \<and> py_index [[1, 2], [0, 2], [0, 1 :: int]] 0 = Inr [1, 2]
   \<and> async_iter ideal_machine (decision_source (\<lambda>_ _ _. exp (- 1)) (\<lambda>_ _. 1))
        [[1, 2], [0, 2], [0, 1]] 0 2 [0, 1] [(Fin 3, 1), (Fin 1, 0)] ()
       = Continue ([0, 1, 2], [(Fin 2, 2), (Fin 2, 0), (Fin 3, 1)], ())
   \<and> neg_log_div ideal_machine (exp (- 1)) 1 = Fin 1
   \<and> random_choice (decision_source (\<lambda>_ _ _. exp (- 1)) (\<lambda>_ _. 1)) (Fin 1) 0 [1, 2] ()
       = Inr (2, ())
   \<and> EstimateAsynchronousGossipTime ideal_machine
        (decision_source (\<lambda>_ _ _. exp (- 1)) (\<lambda>_ _. 1)) 0 3 [[1, 2], [0, 2], [0, 1]] 0 1 ()
       = Some (Inr (Fin 2))
   \<and> (\<exists>k st. iterations (\<lambda>(infected, heap, s).
                   async_iter ideal_machine (decision_source (\<lambda>_ _ _. exp (- 1)) (\<lambda>_ _. 1))
                     [[1, 2], [0, 2], [0, 1]] 0 1 infected heap s) k
                ([0], [(Fin 1, 0)], ()) = Some st
            \<and> (case st of (infected, heap, s) \<Rightarrow>
                   async_iter ideal_machine (decision_source (\<lambda>_ _ _. exp (- 1)) (\<lambda>_ _. 1))
                     [[1, 2], [0, 2], [0, 1]] 0 1 infected heap s) = Return (Fin 2))"
proof -
  let ?G = "decision_source (\<lambda>(_ :: call_site) (_ :: ftime) (_ :: int). exp (- 1) :: real)
              (\<lambda>(_ :: ftime) (_ :: int). 1 :: nat) :: (unit, ftime) random_source"
  let ?nl = "[[1, 2], [0, 2], [0, 1 :: int]]"
  have pop: "heappop [(Fin 3, 1), (Fin 1, 0)] = Inr ((Fin 1, 0), [(Fin 3, 1)])"
    by (simp add: heappop_def less_eq_prod_def less_ftime_def min_def)
  have idx: "py_index ?nl 0 = Inr [1, 2]" by (simp add: py_index_def)
  have lt: "fst (rand ?G PushDraw (Fin 1) 0 ()) < 1" by (simp add: decision_source_def)
  have ge: "0 \<le> fst (rand ?G PushDraw (Fin 1) 0 ())" by (simp add: decision_source_def)
  have u: "0 < exp (- 1 :: real) \<and> exp (- 1 :: real) < 1" by simp
  note fail = async_event_semantics [OF pop, where G = ?G and s = "()" and p = 1
      and M = ideal_machine and nl = ?nl and c = 2 and infected = "[0, 1]" and nb = "[1, 2]"
      and src = 0 and n = 3 and z = "()" and r = "Fin 2" and u = "exp (- 1)"
      and i = 1 and ?z1.0 = "()" and ?z2.0 = "()"]
  note succ = async_event_semantics [OF pop, where G = ?G and s = "()" and p = 0
      and M = ideal_machine and nl = ?nl and c = 2 and infected = "[0, 1]" and nb = "[1, 2]"
      and src = 0 and n = 3 and z = "()" and r = "Fin 2" and u = "exp (- 1)"
      and i = 1 and ?z1.0 = "()" and ?z2.0 = "()"]
  note run = async_event_semantics [OF pop, where G = ?G and s = "()" and p = 0
      and M = ideal_machine and nl = ?nl and c = 1 and infected = "[0, 1]" and nb = "[1, 2]"
      and src = 0 and n = 3 and z = "()" and r = "Fin 2" and u = "exp (- 1)"
      and i = 1 and ?z1.0 = "()" and ?z2.0 = "()"]
  from fail lt have
    "let s1 = snd (rand ?G PushDraw (Fin 1) 0 ());
         (u1, s2) = rand ?G OwnDelay (Fin 1) 0 s1;
         own = (fadd ideal_machine (Fin 1) (neg_log_div ideal_machine u1 1), 0)
     in async_iter ideal_machine ?G ?nl 1 2 [0, 1] [(Fin 3, 1), (Fin 1, 0)] () =
          (if fmul ideal_machine 2 (length ?nl) \<le> real (length [0, 1 :: int])
           then Return (Fin 1)
           else Continue ([0, 1], own # [(Fin 3, 1)], s2))"
    by blast
  then have a: "async_iter ideal_machine ?G ?nl 1 2 [0, 1] [(Fin 3, 1), (Fin 1, 0)] ()
       = Continue ([0, 1], [(Fin 2, 0), (Fin 3, 1)], ())"
    by (simp add: decision_source_def ideal_fmul ideal_fadd ideal_neg_log_div)
  from succ ge idx have
    "let s1 = snd (rand ?G PushDraw (Fin 1) 0 ());
         (k, s2) = choice ?G (Fin 1) 0 s1;
         chosen = [1, 2] ! (k mod length [1, 2 :: int]);
         infected' = set_add chosen [0, 1];
         (u1, s3) = rand ?G OwnDelay (Fin 1) 0 s2;
         own = (fadd ideal_machine (Fin 1) (neg_log_div ideal_machine u1 1), 0);
         (u2, s4) = rand ?G FirstDelay (Fin 1) chosen s3;
         first = (fadd ideal_machine (Fin 1) (neg_log_div ideal_machine u2 1), chosen)
     in async_iter ideal_machine ?G ?nl 0 2 [0, 1] [(Fin 3, 1), (Fin 1, 0)] () =
          (if fmul ideal_machine 2 (length ?nl) \<le> real (length infected')
           then Return (Fin 1)
           else if chosen \<in> set [0, 1] then Continue (infected', own # [(Fin 3, 1)], s3)
           else Continue (infected', first # own # [(Fin 3, 1)], s4))"
    by blast
  then have b: "async_iter ideal_machine ?G ?nl 0 2 [0, 1] [(Fin 3, 1), (Fin 1, 0)] ()
       = Continue ([0, 1, 2], [(Fin 2, 2), (Fin 2, 0), (Fin 3, 1)], ())"
    by (simp add: decision_source_def set_add_def ideal_fmul ideal_fadd ideal_neg_log_div)
  from succ u have "neg_log_div ideal_machine (exp (- 1)) 1 = Fin (- ln (exp (- 1 :: real)))"
    by blast
  then have c: "neg_log_div ideal_machine (exp (- 1)) 1 = Fin 1" by simp
  have ch: "1 < length [1, 2 :: int] \<and> choice ?G (Fin 1) 0 () = (1, ())"
    by (simp add: decision_source_def)
  from succ ch have "random_choice ?G (Fin 1) 0 [1, 2] () = Inr ([1, 2] ! 1, ())"
    by blast
  then have c': "random_choice ?G (Fin 1) 0 [1, 2] () = Inr (2, ())" by simp
  have e: "EstimateAsynchronousGossipTime ideal_machine ?G 0 3 ?nl 0 1 () = Some (Inr (Fin 2))"
    by (simp add: estimate_defs run_defs)
  from run e have
    "\<exists>k st. iterations (\<lambda>(infected, heap, s).
                 async_iter ideal_machine ?G ?nl 0 1 infected heap s) k
              ([0],
               [(fadd ideal_machine (Fin 0)
                   (neg_log_div ideal_machine (fst (rand ?G FirstDelay (Fin 0) 0 ())) 1), 0)],
               snd (rand ?G FirstDelay (Fin 0) 0 ())) = Some st
          \<and> (case st of (infected, heap, s) \<Rightarrow>
                 async_iter ideal_machine ?G ?nl 0 1 infected heap s) = Return (Fin 2)"
    by blast
  then have d:
    "\<exists>k st. iterations (\<lambda>(infected, heap, s).
                 async_iter ideal_machine ?G ?nl 0 1 infected heap s) k
              ([0], [(Fin 1, 0)], ()) = Some st
          \<and> (case st of (infected, heap, s) \<Rightarrow>
                 async_iter ideal_machine ?G ?nl 0 1 infected heap s) = Return (Fin 2)"
    by (simp add: decision_source_def ideal_fadd ideal_neg_log_div)
  from pop a idx b c c' e d show ?thesis by blast
qed

section \<open>Nodes without neighbours\<close>

text \<open>
  Claim C7, as stated, on the graph of one isolated node: both exact spreaders raise
  \<^verbatim>\<open>ValueError\<close> (the error of \<^verbatim>\<open>np.random.choice\<close> on an empty list) instead of
  skipping the push.
\<close>

theorem empty_neighbourhood_raises:
  "EstimateSynchronousGossipTime ideal_machine (decision_source (\<lambda>_ _ _. 1 / 2) (\<lambda>_ _. 0))
       0 1 [[]] 0 1 () = Some (Inl ValueError)
   \<and> EstimateAsynchronousGossipTime ideal_machine (decision_source (\<lambda>_ _ _. exp (- 1)) (\<lambda>_ _. 0))
       0 1 [[]] 0 1 () = Some (Inl ValueError)"
  by (simp add: estimate_defs run_defs)

text \<open>
  Claim C7, amended: when a node whose neighbour list is empty is up for a push attempt,
  the exact spreaders raise \<^verbatim>\<open>ValueError\<close> if the failure draw lets the push go ahead, and
  do nothing for this node if the draw drops the push; the fast spreaders never ask such a
  node to choose: the empty list is a subset of the infected set, so the synchronous one
  marks the node as used up and the asynchronous one discards its event without
  rescheduling it.
\<close>

theorem empty_neighbourhood:
  assumes "py_index nl a = Inr []"
  shows "(p \<le> fst (rand G PushDraw t a s)
            \<longrightarrow> sync_round G nl p t (a # as) newly s = Inl ValueError)
     \<and> (\<not> p \<le> fst (rand G PushDraw t a s)
            \<longrightarrow> sync_round G nl p t (a # as) newly s
                = sync_round G nl p t as newly (snd (rand G PushDraw t a s)))
     \<and> (p \<le> fst (rand H PushDraw ta a z)
            \<longrightarrow> push_attempt H nl p ta a infected z = Inl ValueError)
     \<and> (\<not> p \<le> fst (rand H PushDraw ta a z)
            \<longrightarrow> push_attempt H nl p ta a infected z
                = Inr (infected, None, snd (rand H PushDraw ta a z)))
     \<and> (heappop heap = Inr ((ta, a), heap1) \<and> p \<le> fst (rand H PushDraw ta a z)
            \<longrightarrow> async_iter M H nl p c infected heap z = Raise ValueError)
     \<and> fast_sync_round G nl p t (a # as) infected useless newly s
          = fast_sync_round G nl p t as infected (set_add a useless) newly s
     \<and> (heappop heap = Inr ((ta, a), heap1)
            \<longrightarrow> fast_async_iter M H nl p c n infected heap z = Continue (infected, heap1, z))"
  using assms
  by (simp add: random_choice_def push_attempt_def async_iter_def fast_async_iter_def
      issubset_def split: prod.splits)

theorem empty_neighbourhood_witness:
  "py_index [[], [0 :: int]] 0 = Inr []
   \<and> sync_round (decision_source (\<lambda>_ _ _. 1 / 2) (\<lambda>_ _. 0)) [[], [0]] 0 0 [0] [] ()
       = Inl ValueError
   \<and> fast_sync_round (decision_source (\<lambda>_ _ _. 1 / 2) (\<lambda>_ _. 0)) [[], [0]] 0 0 [0] [0] [] [] ()
       = Inr ([0], [0], [], ())"
proof -
  have i: "py_index [[], [0 :: int]] 0 = Inr []" by (simp add: py_index_def)
  have u: "(0 :: real) \<le> fst (rand (decision_source (\<lambda>_ _ _. 1 / 2) (\<lambda>_ _. 0)) PushDraw (0 :: nat) 0 ())"
    by (simp add: decision_source_def)
  note th = empty_neighbourhood [OF i, where M = ideal_machine and p = 0 and t = 0
      and s = "()" and as = "[]"
      and G = "decision_source (\<lambda>_ _ _. 1 / 2) (\<lambda>_ _. 0)" and newly = "[]"
      and infected = "[0]" and useless = "[]"
      and H = "decision_source (\<lambda>_ _ _. exp (- 1)) (\<lambda>_ _. 0)" and ta = "Fin 1" and z = "()"
      and heap = "[]" and ?heap1.0 = "[]" and c = 1 and n = 2]
  from th u have a: "sync_round (decision_source (\<lambda>_ _ _. 1 / 2) (\<lambda>_ _. 0)) [[], [0]] 0 0 [0] [] ()
       = Inl ValueError"
    by blast
  from th have "fast_sync_round (decision_source (\<lambda>_ _ _. 1 / 2) (\<lambda>_ _. 0)) [[], [0]] 0 0
       [0] [0] [] [] ()
     = fast_sync_round (decision_source (\<lambda>_ _ _. 1 / 2) (\<lambda>_ _. 0)) [[], [0]] 0 0
       [] [0] (set_add 0 []) [] ()"
    by blast
  then have b:
    "fast_sync_round (decision_source (\<lambda>_ _ _. 1 / 2) (\<lambda>_ _. 0)) [[], [0]] 0 0 [0] [0] [] [] ()
       = Inr ([0], [0], [], ())"
    by (simp add: set_add_def)
  from i a b show ?thesis by blast
qed

section \<open>Failure probability one\<close>

text \<open>
  With uniform draws below 1 and \<open>failure_probability = 1\<close> no push goes ahead: a round or
  an event leaves the infected set as it is, and a loop that has not met its threshold
  runs forever.
\<close>

lemma unit_draws_fail: "unit_draws G \<Longrightarrow> \<not> 1 \<le> fst (rand G c t n s)"
  by (simp add: unit_draws_def not_le)

lemma unit_draws_decision:
  "unit_draws (decision_source U K) \<longleftrightarrow> (\<forall>c t n. 0 \<le> U c t n \<and> U c t n < 1)"
  by (simp add: unit_draws_def decision_source_def)

lemma sync_round_full_failure:
  assumes "unit_draws G"
  shows "\<exists>s'. sync_round G nl 1 t as newly s = Inr (newly, s')"
proof (induction as arbitrary: s)
  case Nil
  show ?case by simp
next
  case (Cons a as)
  obtain u s1 where r: "rand G PushDraw t a s = (u, s1)" by (cases "rand G PushDraw t a s")
  with unit_draws_fail [OF assms, of PushDraw t a s] have "\<not> 1 \<le> u" by simp
  with r Cons.IH [of s1] show ?case by simp
qed

lemma sync_iter_full_failure:
  assumes "unit_draws G" and "real (length infected) < fmul M c (length nl)"
  shows "\<exists>s'. sync_iter M G nl 1 c t infected s = Continue (t + 1, infected, s')"
proof -
  obtain s' where "sync_round G nl 1 t (set_order M t infected) [] s = Inr ([], s')"
    using sync_round_full_failure [OF assms(1), of nl t "set_order M t infected" "[]" s]
    by blast
  with assms(2) show ?thesis by (simp add: sync_iter_def set_union_def)
qed

lemma sync_loop_full_failure:
  assumes "unit_draws G" and "real (length infected) < fmul M c (length nl)"
  shows "sync_loop M G nl 1 c t infected s = None"
  unfolding sync_loop_def
proof (rule while_True_diverges
    [where Inv = "\<lambda>(t, I, s). real (length I) < fmul M c (length nl)"])
  show "case (t, infected, s) of (t, I, s) \<Rightarrow> real (length I) < fmul M c (length nl)"
    using assms(2) by simp
next
  fix st :: "nat \<times> int list \<times> 'a"
  assume inv: "case st of (t, I, s) \<Rightarrow> real (length I) < fmul M c (length nl)"
  obtain t I s where st: "st = (t, I, s)" by (cases st)
  with inv have "real (length I) < fmul M c (length nl)" by simp
  from sync_iter_full_failure [OF assms(1) this, of t s] st inv
  show "\<exists>st'. (case st of (t, infected, s) \<Rightarrow> sync_iter M G nl 1 c t infected s) = Continue st'
          \<and> (case st' of (t, I, s) \<Rightarrow> real (length I) < fmul M c (length nl))"
    by auto
qed

lemma fast_sync_round_full_failure:
  assumes "unit_draws G"
  shows "\<forall>a \<in> set as. py_index nl a \<noteq> Inl IndexError
    \<Longrightarrow> \<exists>useless' s'. fast_sync_round G nl 1 t as infected useless newly s
                        = Inr (infected, useless', newly, s')"
proof (induction as arbitrary: s useless)
  case Nil
  show ?case by simp
next
  case (Cons a as)
  from Cons.prems obtain nb where nb: "py_index nl a = Inr nb"
    by (cases "py_index nl a") (auto simp: py_index_def Let_def split: if_splits)
  from Cons.prems have rest: "\<forall>a \<in> set as. py_index nl a \<noteq> Inl IndexError" by simp
  obtain u s1 where r: "rand G PushDraw t a s = (u, s1)" by (cases "rand G PushDraw t a s")
  with unit_draws_fail [OF assms, of PushDraw t a s] have "\<not> 1 \<le> u" by simp
  with r nb Cons.IH [OF rest, of "set_add a useless" s] Cons.IH [OF rest, of useless s1]
  show ?case by simp
qed

lemma py_index_error: "py_index xs i = Inl e \<Longrightarrow> e = IndexError"
  by (auto simp: py_index_def Let_def split: if_splits)

lemma fast_sync_loop_full_failure:
  assumes "unit_draws G" and "real (length infected) < fmul M c (length nl)"
    and "\<forall>a \<in> set useful. py_index nl a \<noteq> Inl IndexError"
  shows "fast_sync_loop M G nl 1 c t infected useful s = None"
  unfolding fast_sync_loop_def
proof (rule while_True_diverges
    [where Inv = "\<lambda>(t, I, U, s). real (length I) < fmul M c (length nl)
                     \<and> (\<forall>a \<in> set U. py_index nl a \<noteq> Inl IndexError)"])
  show "case (t, infected, useful, s) of (t, I, U, s) \<Rightarrow>
          real (length I) < fmul M c (length nl)
          \<and> (\<forall>a \<in> set U. py_index nl a \<noteq> Inl IndexError)"
    using assms(2,3) by simp
next
  fix st :: "nat \<times> int list \<times> int list \<times> 'a"
  assume inv: "case st of (t, I, U, s) \<Rightarrow> real (length I) < fmul M c (length nl)
                 \<and> (\<forall>a \<in> set U. py_index nl a \<noteq> Inl IndexError)"
  obtain t I U s where st: "st = (t, I, U, s)" by (cases st)
  with inv have len: "real (length I) < fmul M c (length nl)"
    and idx: "\<forall>a \<in> set U. py_index nl a \<noteq> Inl IndexError" by simp_all
  from idx have idx': "\<forall>a \<in> set (set_order M t U). py_index nl a \<noteq> Inl IndexError"
    by (simp add: set_set_order)
  from fast_sync_round_full_failure [OF assms(1) idx', of t I "[]" "[]" s]
  obtain useless' s' where
    r: "fast_sync_round G nl 1 t (set_order M t U) I [] [] s = Inr (I, useless', [], s')"
    by blast
  have "fast_sync_iter M G nl 1 c t I U s
          = Continue (t + 1, I, set_difference U useless', s')"
    using r len by (simp add: fast_sync_iter_def set_union_def)
  moreover have "\<forall>a \<in> set (set_difference U useless'). py_index nl a \<noteq> Inl IndexError"
    using idx by (simp add: set_set_difference)
  ultimately show "\<exists>st'. (case st of (t, infected, useful, s) \<Rightarrow>
                            fast_sync_iter M G nl 1 c t infected useful s) = Continue st'
          \<and> (case st' of (t, I, U, s) \<Rightarrow> real (length I) < fmul M c (length nl)
                 \<and> (\<forall>a \<in> set U. py_index nl a \<noteq> Inl IndexError))"
    using st len by simp
qed

lemma push_attempt_full_failure:
  assumes "unit_draws G"
  shows "push_attempt G nl 1 t a infected s = Inr (infected, None, snd (rand G PushDraw t a s))"
  using unit_draws_fail [OF assms, of PushDraw t a s]
  by (auto simp: push_attempt_def split: prod.splits)

lemma reschedule_None_eq:
  "reschedule M G t a None heap s =
     ((fadd M t (fst (PoissonSample M G OwnDelay t a 1 s)), a) # heap,
      snd (PoissonSample M G OwnDelay t a 1 s))"
  by (simp add: reschedule_def PushAsynchronousEvent_def heappush_def split: prod.splits)

lemma reschedule_None:
  "\<exists>d s'. reschedule M G t a None heap s = ((fadd M t d, a) # heap, s')"
  unfolding reschedule_None_eq by blast

lemma async_loop_full_failure:
  assumes "unit_draws G" and "real (length infected) < fmul M c (length nl)"
    and "heap \<noteq> []"
  shows "async_loop M G nl 1 c infected heap s = None"
  unfolding async_loop_def
proof (rule while_True_diverges
    [where Inv = "\<lambda>(I, h, s). real (length I) < fmul M c (length nl) \<and> h \<noteq> []"])
  show "case (infected, heap, s) of (I, h, s) \<Rightarrow>
          real (length I) < fmul M c (length nl) \<and> h \<noteq> []"
    using assms(2,3) by simp
next
  fix st :: "int list \<times> event list \<times> 'a"
  assume inv: "case st of (I, h, s) \<Rightarrow> real (length I) < fmul M c (length nl) \<and> h \<noteq> []"
  obtain I h s where st: "st = (I, h, s)" by (cases st)
  with inv have len: "real (length I) < fmul M c (length nl)" and ne: "h \<noteq> []" by simp_all
  from ne obtain x xs where "h = x # xs" by (cases h) auto
  with heappop_Cons [of x xs] obtain t a h1 where pop: "heappop h = Inr ((t, a), h1)" by auto
  obtain d s' where
    rs: "reschedule M G t a None h1 (snd (rand G PushDraw t a s)) = ((fadd M t d, a) # h1, s')"
    using reschedule_None [of M G t a h1 "snd (rand G PushDraw t a s)"] by blast
  have "async_iter M G nl 1 c I h s = Continue (I, (fadd M t d, a) # h1, s')"
    using pop len rs by (simp add: async_iter_def push_attempt_full_failure [OF assms(1)])
  with st len show "\<exists>st'. (case st of (infected, heap, s) \<Rightarrow>
                            async_iter M G nl 1 c infected heap s) = Continue st'
          \<and> (case st' of (I, h, s) \<Rightarrow> real (length I) < fmul M c (length nl) \<and> h \<noteq> [])"
    by simp
qed

lemma fast_async_loop_full_failure:
  assumes "unit_draws G" and "real (length infected) < fmul M c n"
    and "heap \<noteq> []"
    and "\<forall>e \<in> set heap. \<exists>nb. py_index nl (snd e) = Inr nb \<and> \<not> issubset nb infected"
  shows "fast_async_loop M G nl 1 c n infected heap s = None"
  unfolding fast_async_loop_def
proof (rule while_True_diverges
    [where Inv = "\<lambda>(I, h, s). I = infected \<and> h \<noteq> []
        \<and> (\<forall>e \<in> set h. \<exists>nb. py_index nl (snd e) = Inr nb \<and> \<not> issubset nb infected)"])
  show "case (infected, heap, s) of (I, h, s) \<Rightarrow> I = infected \<and> h \<noteq> []
        \<and> (\<forall>e \<in> set h. \<exists>nb. py_index nl (snd e) = Inr nb \<and> \<not> issubset nb infected)"
    using assms(3,4) by simp
next
  fix st :: "int list \<times> event list \<times> 'a"
  assume inv: "case st of (I, h, s) \<Rightarrow> I = infected \<and> h \<noteq> []
        \<and> (\<forall>e \<in> set h. \<exists>nb. py_index nl (snd e) = Inr nb \<and> \<not> issubset nb infected)"
  obtain I h s where st: "st = (I, h, s)" by (cases st)
  with inv have I: "I = infected" and ne: "h \<noteq> []"
    and live: "\<forall>e \<in> set h. \<exists>nb. py_index nl (snd e) = Inr nb \<and> \<not> issubset nb infected"
    by simp_all
  from ne obtain x xs where "h = x # xs" by (cases h) auto
  with heappop_Cons [of x xs] obtain t a h1 where pop: "heappop h = Inr ((t, a), h1)" by auto
  from heappop_Min [OF pop] have h1: "h1 = remove1 (t, a) h" by simp
  from heappop_Inr [OF pop] have mem: "(t, a) \<in> set h" by simp
  with live obtain nb where nb: "py_index nl a = Inr nb" and ns: "\<not> issubset nb infected"
    by fastforce
  obtain d s' where
    rs: "reschedule M G t a None h1 (snd (rand G PushDraw t a s)) = ((fadd M t d, a) # h1, s')"
    using reschedule_None [of M G t a h1 "snd (rand G PushDraw t a s)"] by blast
  have it: "fast_async_iter M G nl 1 c n I h s = Continue (I, (fadd M t d, a) # h1, s')"
    using pop nb ns I assms(2) rs
    by (simp add: fast_async_iter_def push_attempt_full_failure [OF assms(1)])
  have "set h1 \<subseteq> set h" unfolding h1 by (rule set_remove1_subset)
  with live nb ns have
    "\<forall>e \<in> set ((fadd M t d, a) # h1).
        \<exists>nb. py_index nl (snd e) = Inr nb \<and> \<not> issubset nb infected"
    by auto
  with it st I show "\<exists>st'. (case st of (infected, heap, s) \<Rightarrow>
                            fast_async_iter M G nl 1 c n infected heap s) = Continue st'
          \<and> (case st' of (I, h, s) \<Rightarrow> I = infected \<and> h \<noteq> []
        \<and> (\<forall>e \<in> set h. \<exists>nb. py_index nl (snd e) = Inr nb \<and> \<not> issubset nb infected))"
    by simp
qed

lemma fast_sync_loop_source_error:
  assumes "py_index nl src = Inl e"
  shows "fast_sync_loop M G nl p c t infected [src] s = Some (Inl e)"
  using assms by (subst fast_sync_loop_unfold) (simp add: fast_sync_iter_def set_order_single)

lemma fast_async_loop_source_error:
  assumes "py_index nl src = Inl e"
  shows "fast_async_loop M G nl p c n infected [(t, src)] s = Some (Inl e)"
  using assms
  by (subst fast_async_loop_unfold) (simp add: fast_async_iter_def heappop_def)

lemma fast_async_loop_source_used_up:
  assumes "py_index nl src = Inr nb" and "issubset nb infected"
  shows "fast_async_loop M G nl p c n infected [(t, src)] s = Some (Inl IndexError)"
proof -
  have "fast_async_iter M G nl p c n infected [(t, src)] s = Continue (infected, [], s)"
    using assms by (simp add: fast_async_iter_def heappop_def)
  moreover have "fast_async_loop M G nl p c n infected [] s = Some (Inl IndexError)"
    by (subst fast_async_loop_unfold) (simp add: fast_async_iter_def heappop_def)
  ultimately show ?thesis by (subst fast_async_loop_unfold) simp
qed

lemma sync_loop_full_failure_met:
  assumes "unit_draws G" and "fmul M c (length nl) \<le> 1"
  shows "sync_loop M G nl 1 c t [src] s = Some (Inr (t + 1))"
proof -
  obtain s' where "sync_round G nl 1 t (set_order M t [src]) [] s = Inr ([], s')"
    using sync_round_full_failure [OF assms(1), of nl t "set_order M t [src]" "[]" s]
    by blast
  with assms(2) have "sync_iter M G nl 1 c t [src] s = Return (t + 1)"
    by (simp add: sync_iter_def set_union_def)
  then show ?thesis by (subst sync_loop_unfold) simp
qed

lemma async_loop_full_failure_met:
  assumes "unit_draws G" and "fmul M c (length nl) \<le> 1"
  shows "async_loop M G nl 1 c [src] [(t, a)] s = Some (Inr t)"
proof -
  have "async_iter M G nl 1 c [src] [(t, a)] s = Return t"
    using assms(2)
    by (simp add: async_iter_def heappop_def push_attempt_full_failure [OF assms(1)])
  then show ?thesis by (subst async_loop_unfold) simp
qed

text \<open>
  Claim C9, as stated, on the two-node graph with threshold 1 (the product \<open>1 \<cdot> 2\<close> is
  not rounded): the exact synchronous spreader does not stop on a stall bound, it never
  returns.
\<close>

theorem full_failure_hangs:
  "EstimateSynchronousGossipTime ideal_machine (decision_source (\<lambda>_ _ _. 1 / 2) (\<lambda>_ _. 0))
      0 2 [[1], [0]] 1 1 () = None"
  unfolding EstimateSynchronousGossipTime_def
  by (rule sync_loop_full_failure) (simp_all add: unit_draws_decision ideal_fmul)

text \<open>
  Claim C9, amended: with \<open>failure_probability = 1\<close> and uniform draws in \<open>[0, 1)\<close> no
  push succeeds, and no spreader has a stall bound. Whether a spreader returns is decided
  by the threshold as the machine computes it, the product of \<^verbatim>\<open>end_criteria\<close> and the
  number of adjacency lists (\<^verbatim>\<open>number_of_nodes\<close> in the fast asynchronous spreader). When
  this product exceeds 1, so that the source alone does not meet the threshold, no
  spreader returns a round or a time: both exact spreaders run forever, and so do the fast
  ones, except that a fast spreader raises \<^verbatim>\<open>IndexError\<close> when the source is no index
  of the neighbour list, and the fast asynchronous one raises \<^verbatim>\<open>IndexError\<close> (pop
  from an empty heap) when the source has no neighbour but itself. When the product is
  at most 1, the exact spreaders return after the first round and at the first event.
\<close>

theorem full_failure_never_returns:
  assumes "unit_draws G" and "unit_draws H"
  shows "(1 < fmul M end_criteria (length neighbor_list) \<longrightarrow>
          EstimateSynchronousGossipTime M G source_node number_of_nodes neighbor_list 1
             end_criteria s = None
          \<and> EstimateAsynchronousGossipTime M H source_node number_of_nodes neighbor_list 1
             end_criteria z = None
          \<and> FastEstimateSynchronousGossipTime M G source_node number_of_nodes neighbor_list 1
             end_criteria s
            = (case py_index neighbor_list source_node of
                 Inl e \<Rightarrow> Some (Inl e) | Inr nb \<Rightarrow> None))
     \<and> (1 < fmul M end_criteria number_of_nodes \<longrightarrow>
          FastEstimateAsynchronousGossipTime M H source_node number_of_nodes neighbor_list 1
            end_criteria z
          = (case py_index neighbor_list source_node of
               Inl e \<Rightarrow> Some (Inl e)
             | Inr nb \<Rightarrow> if issubset nb [source_node] then Some (Inl IndexError) else None))
     \<and> (fmul M end_criteria (length neighbor_list) \<le> 1 \<longrightarrow>
          EstimateSynchronousGossipTime M G source_node number_of_nodes neighbor_list 1
             end_criteria s = Some (Inr 1)
          \<and> EstimateAsynchronousGossipTime M H source_node number_of_nodes neighbor_list 1
             end_criteria z
            = Some (Inr (fadd M (Fin 0)
                 (neg_log_div M (fst (rand H FirstDelay (Fin 0) source_node z)) 1))))"
proof (intro conjI impI)
  assume a3: "1 < fmul M end_criteria (length neighbor_list)"
  show "EstimateSynchronousGossipTime M G source_node number_of_nodes neighbor_list 1
           end_criteria s = None"
    unfolding EstimateSynchronousGossipTime_def
    by (rule sync_loop_full_failure [OF assms(1)]) (use a3 in simp)
  show "EstimateAsynchronousGossipTime M H source_node number_of_nodes neighbor_list 1
           end_criteria z = None"
    unfolding EstimateAsynchronousGossipTime_def Let_def PushAsynchronousEvent_def heappush_def
    using a3
    by (simp add: async_loop_full_failure [OF assms(2)] split: prod.splits)
  show "FastEstimateSynchronousGossipTime M G source_node number_of_nodes neighbor_list 1
           end_criteria s
         = (case py_index neighbor_list source_node of
              Inl e \<Rightarrow> Some (Inl e) | Inr nb \<Rightarrow> None)"
  proof (cases "py_index neighbor_list source_node")
    case (Inl e)
    then show ?thesis
      by (simp add: FastEstimateSynchronousGossipTime_def fast_sync_loop_source_error)
  next
    case (Inr nb)
    have "fast_sync_loop M G neighbor_list 1 end_criteria 0 [source_node] [source_node] s = None"
      by (rule fast_sync_loop_full_failure [OF assms(1)]) (use a3 Inr in simp_all)
    with Inr show ?thesis by (simp add: FastEstimateSynchronousGossipTime_def)
  qed
next
  assume n: "1 < fmul M end_criteria number_of_nodes"
  obtain d z1 where ps: "PoissonSample M H FirstDelay (Fin 0) source_node 1 z = (d, z1)"
    by (cases "PoissonSample M H FirstDelay (Fin 0) source_node 1 z")
  have unf: "FastEstimateAsynchronousGossipTime M H source_node number_of_nodes neighbor_list 1
            end_criteria z
      = fast_async_loop M H neighbor_list 1 end_criteria number_of_nodes [source_node]
          [(fadd M (Fin 0) d, source_node)] z1"
    using ps
    by (simp add: FastEstimateAsynchronousGossipTime_def PushAsynchronousEvent_def heappush_def)
  show "FastEstimateAsynchronousGossipTime M H source_node number_of_nodes neighbor_list 1
            end_criteria z
          = (case py_index neighbor_list source_node of
               Inl e \<Rightarrow> Some (Inl e)
             | Inr nb \<Rightarrow> if issubset nb [source_node] then Some (Inl IndexError) else None)"
  proof (cases "py_index neighbor_list source_node")
    case (Inl e)
    then show ?thesis by (simp add: unf fast_async_loop_source_error)
  next
    case (Inr nb)
    show ?thesis
    proof (cases "issubset nb [source_node]")
      case True
      with Inr show ?thesis by (simp add: unf fast_async_loop_source_used_up)
    next
      case False
      have "fast_async_loop M H neighbor_list 1 end_criteria number_of_nodes [source_node]
              [(fadd M (Fin 0) d, source_node)] z1 = None"
        by (rule fast_async_loop_full_failure [OF assms(2)]) (use n Inr False in simp_all)
      with Inr False show ?thesis by (simp add: unf)
    qed
  qed
next
  assume met: "fmul M end_criteria (length neighbor_list) \<le> 1"
  show "EstimateSynchronousGossipTime M G source_node number_of_nodes neighbor_list 1
           end_criteria s = Some (Inr 1)"
    unfolding EstimateSynchronousGossipTime_def
    using sync_loop_full_failure_met [OF assms(1) met, of 0 source_node s] by simp
  show "EstimateAsynchronousGossipTime M H source_node number_of_nodes neighbor_list 1
           end_criteria z
         = Some (Inr (fadd M (Fin 0)
              (neg_log_div M (fst (rand H FirstDelay (Fin 0) source_node z)) 1)))"
    unfolding EstimateAsynchronousGossipTime_def Let_def PushAsynchronousEvent_def heappush_def
    by (simp add: PoissonSample_def async_loop_full_failure_met [OF assms(2) met]
        split: prod.splits)
qed

theorem full_failure_never_returns_witness:
  "unit_draws (decision_source (\<lambda>_ _ _. 1 / 2) (\<lambda>_ _. 0) :: (unit, nat) random_source)
   \<and> unit_draws (decision_source (\<lambda>_ _ _. exp (- 1)) (\<lambda>_ _. 0) :: (unit, ftime) random_source)
   \<and> 1 < fmul ideal_machine 1 (length [[1], [0 :: int]])
   \<and> 1 < fmul ideal_machine 1 2
   \<and> EstimateAsynchronousGossipTime ideal_machine
        (decision_source (\<lambda>_ _ _. exp (- 1)) (\<lambda>_ _. 0)) 0 2 [[1], [0]] 1 1 () = None
   \<and> FastEstimateSynchronousGossipTime ideal_machine
        (decision_source (\<lambda>_ _ _. 1 / 2) (\<lambda>_ _. 0)) 0 2 [[1], [0]] 1 1 () = None
   \<and> FastEstimateAsynchronousGossipTime ideal_machine
        (decision_source (\<lambda>_ _ _. exp (- 1)) (\<lambda>_ _. 0)) 0 2 [[1], [0]] 1 1 () = None
   \<and> fmul ideal_machine (1 / 2) (length [[1], [0 :: int]]) \<le> 1
   \<and> EstimateSynchronousGossipTime ideal_machine
        (decision_source (\<lambda>_ _ _. 1 / 2) (\<lambda>_ _. 0)) 0 2 [[1], [0]] 1 (1 / 2) ()
        = Some (Inr 1)
   \<and> EstimateAsynchronousGossipTime ideal_machine
        (decision_source (\<lambda>_ _ _. exp (- 1)) (\<lambda>_ _. 0)) 0 2 [[1], [0]] 1 (1 / 2) ()
        = Some (Inr (Fin 1))"
proof -
  have a: "unit_draws (decision_source (\<lambda>_ _ _. 1 / 2) (\<lambda>_ _. 0) :: (unit, nat) random_source)"
    by (simp add: unit_draws_decision)
  have b: "unit_draws (decision_source (\<lambda>_ _ _. exp (- 1)) (\<lambda>_ _. 0)
                         :: (unit, ftime) random_source)"
    by (simp add: unit_draws_decision)
  have c: "1 < fmul ideal_machine 1 (length [[1], [0 :: int]])" by (simp add: ideal_fmul)
  have c': "1 < fmul ideal_machine 1 2" by (simp add: ideal_fmul)
  have d: "fmul ideal_machine (1 / 2) (length [[1], [0 :: int]]) \<le> 1"
    by (simp add: ideal_fmul)
  from full_failure_never_returns [OF a b, of ideal_machine 1 "[[1], [0]]" 0 2 "()" "()"] c c'
  have "EstimateAsynchronousGossipTime ideal_machine
        (decision_source (\<lambda>_ _ _. exp (- 1)) (\<lambda>_ _. 0)) 0 2 [[1], [0]] 1 1 () = None
   \<and> FastEstimateSynchronousGossipTime ideal_machine
        (decision_source (\<lambda>_ _ _. 1 / 2) (\<lambda>_ _. 0)) 0 2 [[1], [0]] 1 1 () = None
   \<and> FastEstimateAsynchronousGossipTime ideal_machine
        (decision_source (\<lambda>_ _ _. exp (- 1)) (\<lambda>_ _. 0)) 0 2 [[1], [0]] 1 1 () = None"
    by (simp add: py_index_def issubset_def)
  moreover
  from full_failure_never_returns [OF a b, of ideal_machine "1 / 2" "[[1], [0]]" 0 2 "()" "()"] d
  have "EstimateSynchronousGossipTime ideal_machine
        (decision_source (\<lambda>_ _ _. 1 / 2) (\<lambda>_ _. 0)) 0 2 [[1], [0]] 1 (1 / 2) ()
        = Some (Inr 1)
   \<and> EstimateAsynchronousGossipTime ideal_machine
        (decision_source (\<lambda>_ _ _. exp (- 1)) (\<lambda>_ _. 0)) 0 2 [[1], [0]] 1 (1 / 2) ()
        = Some (Inr (Fin 1))"
    by (simp add: decision_source_def ideal_fadd ideal_neg_log_div)
  ultimately show ?thesis using a b c c' d by blast
qed

section \<open>Parameters outside their ranges\<close>

lemma draw_clamp:
  assumes "unit_draws G"
  shows "(p \<le> fst (rand G c t n s)) = (max 0 (min 1 p) \<le> fst (rand G c t n s))"
proof -
  from assms have "0 \<le> fst (rand G c t n s)" and "fst (rand G c t n s) < 1"
    by (simp_all add: unit_draws_def)
  then show ?thesis by (auto simp: max_def min_def)
qed

lemma sync_round_clamp:
  assumes "unit_draws G"
  shows "sync_round G nl p t as newly s = sync_round G nl (max 0 (min 1 p)) t as newly s"
proof (induction as arbitrary: newly s)
  case Nil
  show ?case by simp
next
  case (Cons a as)
  obtain u s1 where r: "rand G PushDraw t a s = (u, s1)" by (cases "rand G PushDraw t a s")
  with draw_clamp [OF assms, of p PushDraw t a s]
  have "(p \<le> u) = (max 0 (min 1 p) \<le> u)" by simp
  with r Cons.IH show ?case by (simp split: sum.splits prod.splits)
qed

lemma fast_sync_round_clamp:
  assumes "unit_draws G"
  shows "fast_sync_round G nl p t as infected useless newly s
           = fast_sync_round G nl (max 0 (min 1 p)) t as infected useless newly s"
proof (induction as arbitrary: infected useless newly s)
  case Nil
  show ?case by simp
next
  case (Cons a as)
  obtain u s1 where r: "rand G PushDraw t a s = (u, s1)" by (cases "rand G PushDraw t a s")
  with draw_clamp [OF assms, of p PushDraw t a s]
  have "(p \<le> u) = (max 0 (min 1 p) \<le> u)" by simp
  with r Cons.IH show ?case by (simp split: sum.splits prod.splits)
qed

lemma push_attempt_clamp:
  assumes "unit_draws G"
  shows "push_attempt G nl p t a infected s
           = push_attempt G nl (max 0 (min 1 p)) t a infected s"
proof -
  obtain u s1 where r: "rand G PushDraw t a s = (u, s1)" by (cases "rand G PushDraw t a s")
  with draw_clamp [OF assms, of p PushDraw t a s]
  have "(p \<le> u) = (max 0 (min 1 p) \<le> u)" by simp
  with r show ?thesis by (simp add: push_attempt_def)
qed

lemma sync_loop_clamp:
  assumes "unit_draws G"
  shows "sync_loop M G nl p c t infected s = sync_loop M G nl (max 0 (min 1 p)) c t infected s"
proof -
  have "(\<lambda>(t, infected, s). sync_iter M G nl p c t infected s)
          = (\<lambda>(t, infected, s). sync_iter M G nl (max 0 (min 1 p)) c t infected s)"
    using sync_round_clamp [OF assms, of nl p] by (simp add: fun_eq_iff sync_iter_def)
  then show ?thesis by (simp only: sync_loop_def)
qed

lemma fast_sync_loop_clamp:
  assumes "unit_draws G"
  shows "fast_sync_loop M G nl p c t infected useful s
           = fast_sync_loop M G nl (max 0 (min 1 p)) c t infected useful s"
proof -
  have "(\<lambda>(t, infected, useful, s). fast_sync_iter M G nl p c t infected useful s)
          = (\<lambda>(t, infected, useful, s).
                fast_sync_iter M G nl (max 0 (min 1 p)) c t infected useful s)"
    using fast_sync_round_clamp [OF assms, of nl p] by (simp add: fun_eq_iff fast_sync_iter_def)
  then show ?thesis by (simp only: fast_sync_loop_def)
qed

lemma async_loop_clamp:
  assumes "unit_draws G"
  shows "async_loop M G nl p c infected heap s
           = async_loop M G nl (max 0 (min 1 p)) c infected heap s"
proof -
  have "(\<lambda>(infected, heap, s). async_iter M G nl p c infected heap s)
          = (\<lambda>(infected, heap, s). async_iter M G nl (max 0 (min 1 p)) c infected heap s)"
    by (auto simp: fun_eq_iff async_iter_def push_attempt_clamp [OF assms, of nl p, symmetric]
        split: sum.splits prod.splits)
  then show ?thesis by (simp only: async_loop_def)
qed

lemma fast_async_loop_clamp:
  assumes "unit_draws G"
  shows "fast_async_loop M G nl p c n infected heap s
           = fast_async_loop M G nl (max 0 (min 1 p)) c n infected heap s"
proof -
  have "(\<lambda>(infected, heap, s). fast_async_iter M G nl p c n infected heap s)
          = (\<lambda>(infected, heap, s). fast_async_iter M G nl (max 0 (min 1 p)) c n infected heap s)"
    by (auto simp: fun_eq_iff fast_async_iter_def
        push_attempt_clamp [OF assms, of nl p, symmetric] split: sum.splits prod.splits)
  then show ?thesis by (simp only: fast_async_loop_def)
qed


lemma sign_kept_ideal: "sign_kept ideal_machine"
  by (simp add: sign_kept_def ideal_fmul mult_nonpos_nonneg)

lemma nonpositive_threshold:
  assumes "sign_kept M" and "c \<le> 0"
  shows "fmul M c n \<le> real m"
proof -
  from assms have "fmul M c n \<le> 0" by (simp add: sign_kept_def)
  also have "0 \<le> real m" by simp
  finally show ?thesis .
qed

lemma sync_loop_nonpositive:
  assumes "sign_kept M" and "c \<le> 0"
  shows "(\<exists>e. sync_loop M G nl p c t infected s = Some (Inl e))
           \<or> sync_loop M G nl p c t infected s = Some (Inr (t + 1))"
  by (subst (1 2) sync_loop_unfold)
    (simp add: sync_iter_def nonpositive_threshold [OF assms] split: sum.splits prod.splits)

lemma fast_sync_loop_nonpositive:
  assumes "sign_kept M" and "c \<le> 0"
  shows "(\<exists>e. fast_sync_loop M G nl p c t infected useful s = Some (Inl e))
           \<or> fast_sync_loop M G nl p c t infected useful s = Some (Inr (t + 1))"
  by (subst (1 2) fast_sync_loop_unfold)
    (simp add: fast_sync_iter_def nonpositive_threshold [OF assms] split: sum.splits prod.splits)

lemma heappop_single: "heappop [e] = Inr (e, [])"
  by (simp add: heappop_def)

lemma async_loop_nonpositive:
  assumes "sign_kept M" and "c \<le> 0"
  shows "(\<exists>e. async_loop M G nl p c infected [(t, a)] s = Some (Inl e))
           \<or> async_loop M G nl p c infected [(t, a)] s = Some (Inr t)"
  by (subst (1 2) async_loop_unfold)
    (simp add: async_iter_def heappop_single nonpositive_threshold [OF assms]
       split: sum.splits prod.splits)

lemma fast_async_loop_empty:
  "fast_async_loop M G nl p c n infected [] s = Some (Inl IndexError)"
  by (subst fast_async_loop_unfold) (simp add: fast_async_iter_def heappop_def)

lemma fast_async_loop_nonpositive:
  assumes "sign_kept M" and "c \<le> 0"
  shows "(\<exists>e. fast_async_loop M G nl p c n infected [(t, a)] s = Some (Inl e))
           \<or> fast_async_loop M G nl p c n infected [(t, a)] s = Some (Inr t)"
  by (subst (1 2) fast_async_loop_unfold)
    (simp add: fast_async_iter_def heappop_single fast_async_loop_empty
       nonpositive_threshold [OF assms] split: sum.splits prod.splits)

lemma sync_loop_source_error:
  assumes "py_index nl src = Inl e" and "p \<le> fst (rand G PushDraw t src s)"
  shows "sync_loop M G nl p c t [src] s = Some (Inl e)"
  using assms
  by (subst sync_loop_unfold) (auto simp: sync_iter_def set_order_single split: prod.splits)

text \<open>
  Claim C8, as stated, on the two-node graph: a failure probability of 2, an
  \<^verbatim>\<open>end_criteria\<close> of -1 and a source node of -1 are each accepted, and the call returns 1.
\<close>

theorem invalid_parameters_accepted:
  "EstimateSynchronousGossipTime ideal_machine (decision_source (\<lambda>_ _ _. 1 / 2) (\<lambda>_ _. 0))
       0 2 [[1], [0]] 2 (1 / 2) () = Some (Inr 1)
   \<and> EstimateSynchronousGossipTime ideal_machine (decision_source (\<lambda>_ _ _. 1 / 2) (\<lambda>_ _. 0))
       0 2 [[1], [0]] 0 (- 1) () = Some (Inr 1)
   \<and> EstimateSynchronousGossipTime ideal_machine (decision_source (\<lambda>_ _ _. 1 / 2) (\<lambda>_ _. 0))
       (- 1) 2 [[1], [0]] 0 (1 / 2) () = Some (Inr 1)"
  by (simp add: estimate_defs run_defs)

text \<open>
  Claim C8, amended: no spreader checks its parameters. With uniform draws in \<open>[0, 1)\<close> a
  failure probability outside \<open>[0, 1]\<close> acts as the nearest bound in all four spreaders.
  An \<^verbatim>\<open>end_criteria\<close> that is not positive, on a machine whose product keeps the sign,
  makes every spreader leave its loop in the first iteration: unless that iteration
  raises, the synchronous ones return 1 and the asynchronous ones the time of the first
  event. A source node that is no index of the
  neighbour list raises \<^verbatim>\<open>IndexError\<close> in the fast spreaders, and in the exact
  synchronous one when the first push goes ahead.
\<close>

theorem invalid_parameters_not_rejected:
  assumes "unit_draws G" and "unit_draws H"
  shows "EstimateSynchronousGossipTime M G src n nl p c s
           = EstimateSynchronousGossipTime M G src n nl (max 0 (min 1 p)) c s
     \<and> FastEstimateSynchronousGossipTime M G src n nl p c s
           = FastEstimateSynchronousGossipTime M G src n nl (max 0 (min 1 p)) c s
     \<and> EstimateAsynchronousGossipTime M H src n nl p c z
           = EstimateAsynchronousGossipTime M H src n nl (max 0 (min 1 p)) c z
     \<and> FastEstimateAsynchronousGossipTime M H src n nl p c z
           = FastEstimateAsynchronousGossipTime M H src n nl (max 0 (min 1 p)) c z
     \<and> (c \<le> 0 \<and> sign_kept M \<longrightarrow>
          ((\<exists>e. EstimateSynchronousGossipTime M G src n nl p c s = Some (Inl e))
             \<or> EstimateSynchronousGossipTime M G src n nl p c s = Some (Inr 1))
          \<and> ((\<exists>e. FastEstimateSynchronousGossipTime M G src n nl p c s = Some (Inl e))
             \<or> FastEstimateSynchronousGossipTime M G src n nl p c s = Some (Inr 1))
          \<and> ((\<exists>e. EstimateAsynchronousGossipTime M H src n nl p c z = Some (Inl e))
             \<or> EstimateAsynchronousGossipTime M H src n nl p c z
                  = Some (Inr (fadd M (Fin 0) (fst (PoissonSample M H FirstDelay (Fin 0) src 1 z)))))
          \<and> ((\<exists>e. FastEstimateAsynchronousGossipTime M H src n nl p c z = Some (Inl e))
             \<or> FastEstimateAsynchronousGossipTime M H src n nl p c z
                  = Some (Inr (fadd M (Fin 0) (fst (PoissonSample M H FirstDelay (Fin 0) src 1 z))))))
     \<and> (py_index nl src = Inl IndexError \<longrightarrow>
          FastEstimateSynchronousGossipTime M G src n nl p c s = Some (Inl IndexError)
          \<and> FastEstimateAsynchronousGossipTime M H src n nl p c z = Some (Inl IndexError)
          \<and> (p \<le> fst (rand G PushDraw 0 src s) \<longrightarrow>
                EstimateSynchronousGossipTime M G src n nl p c s = Some (Inl IndexError)))"
proof (intro conjI impI)
  show "EstimateSynchronousGossipTime M G src n nl p c s
           = EstimateSynchronousGossipTime M G src n nl (max 0 (min 1 p)) c s"
    unfolding EstimateSynchronousGossipTime_def by (rule sync_loop_clamp [OF assms(1)])
  show "FastEstimateSynchronousGossipTime M G src n nl p c s
           = FastEstimateSynchronousGossipTime M G src n nl (max 0 (min 1 p)) c s"
    unfolding FastEstimateSynchronousGossipTime_def by (rule fast_sync_loop_clamp [OF assms(1)])
  show "EstimateAsynchronousGossipTime M H src n nl p c z
           = EstimateAsynchronousGossipTime M H src n nl (max 0 (min 1 p)) c z"
    unfolding EstimateAsynchronousGossipTime_def Let_def
    by (simp add: async_loop_clamp [OF assms(2), of M nl p] split: prod.splits)
  show "FastEstimateAsynchronousGossipTime M H src n nl p c z
           = FastEstimateAsynchronousGossipTime M H src n nl (max 0 (min 1 p)) c z"
    unfolding FastEstimateAsynchronousGossipTime_def Let_def
    by (simp add: fast_async_loop_clamp [OF assms(2), of M nl p] split: prod.splits)
next
  assume "c \<le> 0 \<and> sign_kept M"
  then have c: "c \<le> 0" and sk: "sign_kept M" by simp_all
  show "(\<exists>e. EstimateSynchronousGossipTime M G src n nl p c s = Some (Inl e))
             \<or> EstimateSynchronousGossipTime M G src n nl p c s = Some (Inr 1)"
    unfolding EstimateSynchronousGossipTime_def
    using sync_loop_nonpositive [OF sk c, of G nl p 0 "[src]" s] by simp
  show "(\<exists>e. FastEstimateSynchronousGossipTime M G src n nl p c s = Some (Inl e))
             \<or> FastEstimateSynchronousGossipTime M G src n nl p c s = Some (Inr 1)"
    unfolding FastEstimateSynchronousGossipTime_def
    using fast_sync_loop_nonpositive [OF sk c, of G nl p 0 "[src]" "[src]" s] by simp
  show "(\<exists>e. EstimateAsynchronousGossipTime M H src n nl p c z = Some (Inl e))
             \<or> EstimateAsynchronousGossipTime M H src n nl p c z
                  = Some (Inr (fadd M (Fin 0) (fst (PoissonSample M H FirstDelay (Fin 0) src 1 z))))"
    unfolding EstimateAsynchronousGossipTime_def Let_def PushAsynchronousEvent_def heappush_def
    using async_loop_nonpositive [OF sk c, of H nl p "[src]"]
    by (simp split: prod.splits)
  show "(\<exists>e. FastEstimateAsynchronousGossipTime M H src n nl p c z = Some (Inl e))
             \<or> FastEstimateAsynchronousGossipTime M H src n nl p c z
                  = Some (Inr (fadd M (Fin 0) (fst (PoissonSample M H FirstDelay (Fin 0) src 1 z))))"
    unfolding FastEstimateAsynchronousGossipTime_def Let_def PushAsynchronousEvent_def
      heappush_def
    using fast_async_loop_nonpositive [OF sk c, of H nl p n "[src]"]
    by (simp split: prod.splits)
next
  assume i: "py_index nl src = Inl IndexError"
  show "FastEstimateSynchronousGossipTime M G src n nl p c s = Some (Inl IndexError)"
    unfolding FastEstimateSynchronousGossipTime_def by (rule fast_sync_loop_source_error [OF i])
  show "FastEstimateAsynchronousGossipTime M H src n nl p c z = Some (Inl IndexError)"
    unfolding FastEstimateAsynchronousGossipTime_def Let_def PushAsynchronousEvent_def
      heappush_def
    by (simp add: fast_async_loop_source_error [OF i] split: prod.splits)
  assume "p \<le> fst (rand G PushDraw 0 src s)"
  then show "EstimateSynchronousGossipTime M G src n nl p c s = Some (Inl IndexError)"
    unfolding EstimateSynchronousGossipTime_def by (rule sync_loop_source_error [OF i])
qed

theorem invalid_parameters_not_rejected_witness:
  "unit_draws (decision_source (\<lambda>_ _ _. 1 / 2) (\<lambda>_ _. 0) :: (unit, nat) random_source)
   \<and> unit_draws (decision_source (\<lambda>_ _ _. exp (- 1)) (\<lambda>_ _. 0) :: (unit, ftime) random_source)
   \<and> EstimateSynchronousGossipTime ideal_machine (decision_source (\<lambda>_ _ _. 1 / 2) (\<lambda>_ _. 0))
        0 2 [[1], [0]] 2 (1 / 2) ()
      = EstimateSynchronousGossipTime ideal_machine (decision_source (\<lambda>_ _ _. 1 / 2) (\<lambda>_ _. 0))
        0 2 [[1], [0]] 1 (1 / 2) ()
   \<and> py_index [[1], [0 :: int]] 7 = Inl IndexError
   \<and> FastEstimateSynchronousGossipTime ideal_machine (decision_source (\<lambda>_ _ _. 1 / 2) (\<lambda>_ _. 0))
        7 2 [[1], [0]] 2 (1 / 2) () = Some (Inl IndexError)
   \<and> (- 1 :: real) \<le> 0 \<and> sign_kept ideal_machine
   \<and> ((\<exists>e. EstimateSynchronousGossipTime ideal_machine
               (decision_source (\<lambda>_ _ _. 1 / 2) (\<lambda>_ _. 0)) 0 2 [[1], [0]] 2 (- 1) ()
             = Some (Inl e))
        \<or> EstimateSynchronousGossipTime ideal_machine
               (decision_source (\<lambda>_ _ _. 1 / 2) (\<lambda>_ _. 0)) 0 2 [[1], [0]] 2 (- 1) ()
             = Some (Inr 1))"
proof -
  have a: "unit_draws (decision_source (\<lambda>_ _ _. 1 / 2) (\<lambda>_ _. 0) :: (unit, nat) random_source)"
    by (simp add: unit_draws_decision)
  have b: "unit_draws (decision_source (\<lambda>_ _ _. exp (- 1)) (\<lambda>_ _. 0)
                         :: (unit, ftime) random_source)"
    by (simp add: unit_draws_decision)
  have i: "py_index [[1], [0 :: int]] 7 = Inl IndexError" by (simp add: py_index_def)
  have c: "(- 1 :: real) \<le> 0" by simp
  have sk: "sign_kept ideal_machine" by (rule sign_kept_ideal)
  from invalid_parameters_not_rejected
    [OF a b, of ideal_machine 0 2 "[[1], [0]]" 2 "1 / 2" "()" "()"]
  have "EstimateSynchronousGossipTime ideal_machine (decision_source (\<lambda>_ _ _. 1 / 2) (\<lambda>_ _. 0))
        0 2 [[1], [0]] 2 (1 / 2) ()
      = EstimateSynchronousGossipTime ideal_machine (decision_source (\<lambda>_ _ _. 1 / 2) (\<lambda>_ _. 0))
        0 2 [[1], [0]] 1 (1 / 2) ()"
    by simp
  moreover
  from invalid_parameters_not_rejected
    [OF a b, of ideal_machine 7 2 "[[1], [0]]" 2 "1 / 2" "()" "()"] i
  have "FastEstimateSynchronousGossipTime ideal_machine (decision_source (\<lambda>_ _ _. 1 / 2) (\<lambda>_ _. 0))
        7 2 [[1], [0]] 2 (1 / 2) () = Some (Inl IndexError)"
    by blast
  moreover
  from invalid_parameters_not_rejected
    [OF a b, of ideal_machine 0 2 "[[1], [0]]" 2 "- 1" "()" "()"] c sk
  have "(\<exists>e. EstimateSynchronousGossipTime ideal_machine
               (decision_source (\<lambda>_ _ _. 1 / 2) (\<lambda>_ _. 0)) 0 2 [[1], [0]] 2 (- 1) ()
             = Some (Inl e))
        \<or> EstimateSynchronousGossipTime ideal_machine
               (decision_source (\<lambda>_ _ _. 1 / 2) (\<lambda>_ _. 0)) 0 2 [[1], [0]] 2 (- 1) ()
             = Some (Inr 1)"
    by blast
  ultimately show ?thesis using a b i c sk by blast
qed

section \<open>Exact and fast spreaders under fixed decisions\<close>

subsection \<open>Synchronous\<close>

text \<open>One round of the fast synchronous spreader under fixed decisions.\<close>

lemma fast_sync_round_decision:
  assumes wf: "wf_topology nl"
  shows "\<forall>a \<in> set as. in_range nl a \<Longrightarrow>
    \<exists>infected' useless' newly'.
      fast_sync_round (decision_source U K) nl p t as infected useless newly s
        = Inr (infected', useless', newly', s)
      \<and> set infected' = set infected \<union> pushes U K nl p t as
      \<and> set newly \<subseteq> set newly'
      \<and> set newly' \<subseteq> set newly \<union> set infected'
      \<and> set infected' \<subseteq> set infected \<union> set newly'
      \<and> set useless \<subseteq> set useless'
      \<and> set useless' \<subseteq> set useless \<union> set as
      \<and> (\<forall>a \<in> set useless' - set useless. neighbours_of nl [a] \<subseteq> set infected')
      \<and> (distinct infected \<longrightarrow> distinct infected')"
proof (induction as arbitrary: infected useless newly)
  case Nil
  show ?case by (simp add: pushes_Nil)
next
  case (Cons a as)
  from Cons.prems have a: "in_range nl a" and rest: "\<forall>a \<in> set as. in_range nl a" by simp_all
  from wf_topology_index [OF wf a]
  have nb: "py_index nl a = Inr (nl ! nat a)" and ne: "nl ! nat a \<noteq> []" by simp_all
  let ?nb = "nl ! nat a"
  have nbs: "neighbours_of nl [a] = set ?nb" using nb by (auto simp: neighbours_of_def)
  have pa: "pushes U K nl p t [a] \<subseteq> set ?nb"
    using pushes_subset_neighbours [of U K nl p t "[a]"] nbs by simp
  have pc: "pushes U K nl p t (a # as) = pushes U K nl p t [a] \<union> pushes U K nl p t as"
    by (rule pushes_Cons)
  show ?case
  proof (cases "issubset ?nb infected")
    case True
    from Cons.IH [OF rest, of infected "set_add a useless" newly]
    obtain i' u' n' where
      r: "fast_sync_round (decision_source U K) nl p t as infected (set_add a useless) newly s
            = Inr (i', u', n', s)"
      and f: "set i' = set infected \<union> pushes U K nl p t as"
        "set newly \<subseteq> set n'" "set n' \<subseteq> set newly \<union> set i'"
        "set i' \<subseteq> set infected \<union> set n'"
        "set (set_add a useless) \<subseteq> set u'" "set u' \<subseteq> set (set_add a useless) \<union> set as"
        "distinct infected \<longrightarrow> distinct i'"
      and g: "\<forall>a \<in> set u' - set (set_add a useless). neighbours_of nl [a] \<subseteq> set i'"
      by blast
    have eq: "fast_sync_round (decision_source U K) nl p t (a # as) infected useless newly s
            = Inr (i', u', n', s)"
      using nb True r by simp
    have sub: "set ?nb \<subseteq> set i'" using True f(1) by (auto simp: issubset_iff)
    have pz: "pushes U K nl p t [a] \<subseteq> set infected"
      using pa True by (auto simp: issubset_iff)
    have "\<forall>b \<in> set u' - set useless. neighbours_of nl [b] \<subseteq> set i'"
    proof
      fix b assume b: "b \<in> set u' - set useless"
      show "neighbours_of nl [b] \<subseteq> set i'"
      proof (cases "b = a")
        case True
        with nbs sub show ?thesis by simp
      next
        case False
        with b have "b \<in> set u' - set (set_add a useless)" by (simp add: set_set_add)
        with g show ?thesis by blast
      qed
    qed
    then show ?thesis
      unfolding eq pc using f pz by (auto simp: set_set_add)
  next
    case False
    show ?thesis
    proof (cases "p \<le> U PushDraw t a")
      case no: False
      from Cons.IH [OF rest, of infected useless newly]
      obtain i' u' n' where
        r: "fast_sync_round (decision_source U K) nl p t as infected useless newly s
              = Inr (i', u', n', s)"
        and f: "set i' = set infected \<union> pushes U K nl p t as"
          "set newly \<subseteq> set n'" "set n' \<subseteq> set newly \<union> set i'"
          "set i' \<subseteq> set infected \<union> set n'"
          "set useless \<subseteq> set u'" "set u' \<subseteq> set useless \<union> set as"
          "\<forall>a \<in> set u' - set useless. neighbours_of nl [a] \<subseteq> set i'"
          "distinct infected \<longrightarrow> distinct i'"
        by blast
      have eq: "fast_sync_round (decision_source U K) nl p t (a # as) infected useless newly s
            = Inr (i', u', n', s)"
        using nb False no r by (simp add: rand_decision)
      have "pushes U K nl p t [a] = {}" using no by (rule pushes_single_fail)
      then show ?thesis
        unfolding eq pc using f by auto
    next
      case True
      let ?ch = "?nb ! (K t a mod length ?nb)"
      from Cons.IH [OF rest, of "set_add ?ch infected" useless "set_add ?ch newly"]
      obtain i' u' n' where
        r: "fast_sync_round (decision_source U K) nl p t as (set_add ?ch infected) useless
              (set_add ?ch newly) s = Inr (i', u', n', s)"
        and f: "set i' = set (set_add ?ch infected) \<union> pushes U K nl p t as"
          "set (set_add ?ch newly) \<subseteq> set n'" "set n' \<subseteq> set (set_add ?ch newly) \<union> set i'"
          "set i' \<subseteq> set (set_add ?ch infected) \<union> set n'"
          "set useless \<subseteq> set u'" "set u' \<subseteq> set useless \<union> set as"
          "\<forall>a \<in> set u' - set useless. neighbours_of nl [a] \<subseteq> set i'"
          "distinct (set_add ?ch infected) \<longrightarrow> distinct i'"
        by blast
      have eq: "fast_sync_round (decision_source U K) nl p t (a # as) infected useless newly s
            = Inr (i', u', n', s)"
        using nb False True ne r by (simp add: rand_decision random_choice_decision)
      have ps: "pushes U K nl p t [a] = {?ch}" using True nb ne by (rule pushes_single_ok)
      show ?thesis
        unfolding eq pc ps using f by (auto simp: set_set_add distinct_set_add)
    qed
  qed
qed


lemma pushes_frontier:
  assumes "set useful \<subseteq> set infected"
    and "\<forall>a \<in> set infected - set useful. neighbours_of nl [a] \<subseteq> set infected"
  shows "set infected \<union> pushes U K nl p t infected = set infected \<union> pushes U K nl p t useful"
proof -
  have "pushes U K nl p t [a] \<subseteq> set infected \<union> pushes U K nl p t useful"
    if "a \<in> set infected" for a
  proof (cases "a \<in> set useful")
    case True
    then show ?thesis using pushes_set [of U K nl p t useful] by auto
  next
    case False
    with that assms(2) have "neighbours_of nl [a] \<subseteq> set infected" by simp
    with pushes_subset_neighbours [of U K nl p t "[a]"] show ?thesis by auto
  qed
  then have "pushes U K nl p t infected \<subseteq> set infected \<union> pushes U K nl p t useful"
    using pushes_set [of U K nl p t infected] by auto
  moreover have "pushes U K nl p t useful \<subseteq> pushes U K nl p t infected"
    using assms(1) by (auto simp: pushes_def)
  ultimately show ?thesis by auto
qed

lemma sync_fast_sync_step:
  assumes wf: "wf_topology nl"
    and R: "sync_related nl (t, infected, s) (t', infected', useful, s')"
    and eq: "fmul M' = fmul M"
  shows "rel_outcome (=) (sync_related nl)
           (sync_iter M (decision_source U K) nl p c t infected s)
           (fast_sync_iter M' (decision_source U K) nl p c t' infected' useful s')"
proof -
  from R have t: "t' = t" and s: "s' = s" and I: "set infected' = set infected"
    and d: "distinct infected" and d': "distinct infected'"
    and sub: "set useful \<subseteq> set infected"
    and rng: "\<forall>a \<in> set infected. in_range nl a"
    and dead: "\<forall>a \<in> set infected - set useful. neighbours_of nl [a] \<subseteq> set infected"
    by (auto simp: sync_related_def)
  have so: "set (set_order M t infected) = set infected" by (rule set_set_order)
  have su: "set (set_order M' t useful) = set useful" by (rule set_set_order)
  from rng so have rng': "\<forall>a \<in> set (set_order M t infected). in_range nl a" by simp
  from sync_round_decision_ok [OF wf rng', of U K p t "[]" s]
  obtain newly where
    r: "sync_round (decision_source U K) nl p t (set_order M t infected) [] s = Inr (newly, s)"
    by blast
  from sync_round_decision [OF r] pushes_cong [OF so, of U K nl p t]
  have nw: "set newly = pushes U K nl p t infected" by simp
  let ?E = "set_union infected newly"
  have E: "set ?E = set infected \<union> pushes U K nl p t infected"
    by (simp add: set_set_union nw)
  have dE: "distinct ?E" using d by (rule distinct_set_union)
  from sub rng su have urng: "\<forall>a \<in> set (set_order M' t useful). in_range nl a" by auto
  from fast_sync_round_decision [OF wf urng, of U K p t infected' "[]" "[]" s]
  obtain F useless newly' where
    fr: "fast_sync_round (decision_source U K) nl p t (set_order M' t useful) infected' [] [] s
           = Inr (F, useless, newly', s)"
    and F0: "set F = set infected' \<union> pushes U K nl p t (set_order M' t useful)"
    and n1: "set newly' \<subseteq> set F" and n2: "set F \<subseteq> set infected' \<union> set newly'"
    and u0: "set useless \<subseteq> set (set_order M' t useful)"
    and u2: "\<forall>a \<in> set useless. neighbours_of nl [a] \<subseteq> set F"
    and dF: "distinct F"
    using d' by auto
  from F0 pushes_cong [OF su, of U K nl p t] have F: "set F = set infected' \<union> pushes U K nl p t useful"
    by simp
  from u0 su have u1: "set useless \<subseteq> set useful" by simp
  have EF: "set ?E = set F"
    unfolding E F I by (rule pushes_frontier [OF sub dead])
  have "card (set ?E) = card (set F)" by (simp only: EF)
  with dE dF have len: "length ?E = length F" by (simp add: distinct_card)
  let ?U = "set_difference (set_union useful newly') useless"
  have ei: "sync_iter M (decision_source U K) nl p c t infected s =
      (if fmul M c (length nl) \<le> real (length F) then Return (t + 1)
       else Continue (t + 1, ?E, s))"
    using r len by (simp add: sync_iter_def)
  have fi: "fast_sync_iter M' (decision_source U K) nl p c t' infected' useful s' =
      (if fmul M c (length nl) \<le> real (length F) then Return (t + 1)
       else Continue (t + 1, F, ?U, s))"
    using fr t s eq by (simp add: fast_sync_iter_def)
  have rel: "sync_related nl (t + 1, ?E, s) (t + 1, F, ?U, s)"
  proof -
    have a: "set ?U \<subseteq> set F"
      using sub I F n1 by (auto simp: set_set_difference set_set_union)
    have b: "\<forall>a \<in> set ?E. in_range nl a"
      using rng pushes_in_range [OF wf rng, of U K p t] unfolding E by auto
    have c: "\<forall>a \<in> set ?E - set ?U. neighbours_of nl [a] \<subseteq> set ?E"
    proof
      fix a assume a: "a \<in> set ?E - set ?U"
      show "neighbours_of nl [a] \<subseteq> set ?E"
      proof (cases "a \<in> set useless")
        case True
        with u2 EF show ?thesis by simp
      next
        case False
        with a have "a \<notin> set useful" and "a \<notin> set newly'"
          by (auto simp: set_set_difference set_set_union)
        moreover from a EF n2 have "a \<in> set infected' \<union> set newly'" by auto
        ultimately have "a \<in> set infected - set useful" using I by auto
        with dead have "neighbours_of nl [a] \<subseteq> set infected" by simp
        then show ?thesis unfolding E by auto
      qed
    qed
    show ?thesis
      using a b c dE dF EF by (simp add: sync_related_def)
  qed
  show ?thesis unfolding ei fi using rel by simp
qed

lemma sync_fast_sync_equal:
  assumes "wf_topology nl" and "in_range nl src" and "fmul M' = fmul M"
  shows "sync_loop M (decision_source U K) nl p c 0 [src] s
           = fast_sync_loop M' (decision_source U K) nl p c 0 [src] [src] s"
  unfolding sync_loop_def fast_sync_loop_def
proof (rule while_True_sim [where R = "sync_related nl"])
  show "sync_related nl (0, [src], s) (0, [src], [src], s)"
    using assms(2) by (simp add: sync_related_def)
next
  fix a :: "nat \<times> int list \<times> 'a" and b :: "nat \<times> int list \<times> int list \<times> 'a"
  assume R: "sync_related nl a b"
  obtain t infected s where a: "a = (t, infected, s)" by (cases a)
  obtain t' infected' useful s' where b: "b = (t', infected', useful, s')" by (cases b)
  from sync_fast_sync_step [OF assms(1) R [unfolded a b] assms(3), of U K p c]
  show "rel_outcome (=) (sync_related nl)
          (case a of (t, infected, s) \<Rightarrow> sync_iter M (decision_source U K) nl p c t infected s)
          (case b of (t, infected, useful, s) \<Rightarrow>
             fast_sync_iter M' (decision_source U K) nl p c t infected useful s)"
    by (simp add: a b)
qed

subsection \<open>Asynchronous\<close>

lemma heappop_eq:
  "h \<noteq> [] \<Longrightarrow> heappop h = Inr (Min (set h), remove1 (Min (set h)) h)"
proof -
  assume "h \<noteq> []"
  then obtain x xs where h: "h = x # xs" by (cases h) auto
  have "fold min xs x = Min (set h)" using Min.set_eq_fold [of x xs] h by simp
  then show ?thesis using h by (simp add: heappop_def Let_def)
qed

lemma neighbours_of_single:
  "py_index nl a = Inr nb \<Longrightarrow> neighbours_of nl [a] = set nb"
  by (auto simp: neighbours_of_def)

lemma push_attempt_decision:
  assumes "py_index nl a = Inr nb" and "nb \<noteq> []"
  shows "push_attempt (decision_source U K) nl p t a infected s =
     (if p \<le> U PushDraw t a
      then Inr (set_add (nb ! (K t a mod length nb)) infected,
                if nb ! (K t a mod length nb) \<notin> set infected
                then Some (nb ! (K t a mod length nb)) else None, s)
      else Inr (infected, None, s))"
  using assms by (simp add: push_attempt_def rand_decision random_choice_decision)

lemma push_attempt_used_up:
  assumes "py_index nl a = Inr nb" and "nb \<noteq> []" and "set nb \<subseteq> set infected"
  shows "push_attempt (decision_source U K) nl p t a infected s = Inr (infected, None, s)"
proof -
  have "nb ! (K t a mod length nb) \<in> set nb" using assms(2) by simp
  with assms(3) have "nb ! (K t a mod length nb) \<in> set infected" by auto
  then show ?thesis
    by (simp add: push_attempt_decision [OF assms(1,2)] set_add_def)
qed

lemma reschedule_decision:
  "\<exists>news. (\<forall>h. reschedule M (decision_source U K) t a newnode h s = (news @ h, s))
      \<and> snd ` set news \<subseteq> insert a (set_option newnode)"
proof (cases newnode)
  case None
  have "\<forall>h. reschedule M (decision_source U K) t a newnode h s
          = ([(fadd M t (fst (PoissonSample M (decision_source U K) OwnDelay t a 1 s)), a)] @ h, s)"
    by (simp add: None reschedule_None_eq PoissonSample_def rand_decision)
  then show ?thesis by (intro exI conjI) (assumption, simp)
next
  case (Some ch)
  have "\<forall>h. reschedule M (decision_source U K) t a newnode h s
          = ([(fadd M t (fst (PoissonSample M (decision_source U K) FirstDelay t ch 1 s)), ch),
              (fadd M t (fst (PoissonSample M (decision_source U K) OwnDelay t a 1 s)), a)] @ h, s)"
    by (simp add: Some reschedule_def PushAsynchronousEvent_def heappush_def
        PoissonSample_def rand_decision)
  then show ?thesis by (intro exI conjI) (assumption, simp add: Some)
qed


lemma push_attempt_decision_result:
  assumes "py_index nl a = Inr nb" and "nb \<noteq> []"
  shows "\<exists>infected' newnode.
      push_attempt (decision_source U K) nl p t a infected s = Inr (infected', newnode, s)
      \<and> set infected \<subseteq> set infected' \<and> set_option newnode \<subseteq> set nb"
proof -
  have "nb ! (K t a mod length nb) \<in> set nb" using assms(2) by simp
  then show ?thesis
    by (simp add: push_attempt_decision [OF assms] set_set_add subset_insertI)
qed

lemma PoissonSample_decision:
  "snd (PoissonSample M (decision_source U K) site t a rate s) = s"
  by (simp add: PoissonSample_def rand_decision)

lemma async_iter_used_up:
  assumes "heappop heap = Inr ((t, a), heap1)"
    and "py_index nl a = Inr nb" and "nb \<noteq> []" and "set nb \<subseteq> set infected"
    and "real (length infected) < fmul M c (length nl)"
  shows "async_iter M (decision_source U K) nl p c infected heap s
           = Continue (infected,
               (fadd M t (fst (PoissonSample M (decision_source U K) OwnDelay t a 1 s)), a)
                 # heap1, s)"
  using assms(1,5)
  by (simp add: async_iter_def push_attempt_used_up [OF assms(2,3,4)] reschedule_None_eq
      PoissonSample_decision)

lemma async_relatedI:
  assumes "\<forall>e \<in> set heap. in_range nl (snd e)"
    and "mset heap = mset heap' + D"
    and "\<forall>e \<in># D. neighbours_of nl [snd e] \<subseteq> set infected"
    and "real (length infected) < fmul M c (length nl)"
  shows "async_related M nl c (infected, heap, s) (infected, heap', s)"
  unfolding async_related_def using assms by (simp only: prod.case) blast

lemma async_fast_async_step:
  assumes wf: "wf_topology nl"
    and R: "async_related M nl c (infected, heap, s) (infected', heap', s')"
  shows "(heap \<noteq> [] \<and> Min (set heap) \<notin> set heap'
          \<and> async_iter M (decision_source U K) nl p c infected heap s
                = Continue (infected, requeued M (decision_source U K) heap s, s)
          \<and> async_related M nl c (infected, requeued M (decision_source U K) heap s, s)
                (infected', heap', s'))
     \<or> rel_outcome (=) (async_related M nl c)
          (async_iter M (decision_source U K) nl p c infected heap s)
          (fast_async_iter M (decision_source U K) nl p c (length nl) infected' heap' s')"
proof -
  let ?G = "decision_source U K"
  from R have I: "infected' = infected" and s: "s' = s"
    and rng: "\<forall>e \<in> set heap. in_range nl (snd e)"
    by (auto simp: async_related_def)
  from R obtain D where m: "mset heap = mset heap' + D"
    and dead: "\<forall>e \<in># D. neighbours_of nl [snd e] \<subseteq> set infected"
    and dis: "real (length infected) < fmul M c (length nl)
                \<or> D = {#} \<and> (\<forall>e \<in> set heap'. \<not> neighbours_of nl [snd e] \<subseteq> set infected)"
    by (auto simp: async_related_def)
  show ?thesis
  proof (cases "heap = []")
    case True
    with m have "heap' = []" by simp
    with True have "async_iter M ?G nl p c infected heap s = Raise IndexError"
      and "fast_async_iter M ?G nl p c (length nl) infected' heap' s' = Raise IndexError"
      by (simp_all add: async_iter_def fast_async_iter_def heappop_Nil)
    then show ?thesis by simp
  next
    case False
    obtain t a where e: "Min (set heap) = (t, a)" by (cases "Min (set heap)")
    let ?h1 = "remove1 (t, a) heap"
    have pop: "heappop heap = Inr ((t, a), ?h1)"
      using heappop_eq [OF False] e by simp
    have mem: "(t, a) \<in> set heap" using Min_in [of "set heap"] False e by auto
    with rng have ar: "in_range nl a" by auto
    from wf_topology_index [OF wf ar] obtain nb where nb: "py_index nl a = Inr nb"
      and ne: "nb \<noteq> []" and nbr: "\<forall>x \<in> set nb. in_range nl x" by blast
    have nbs: "neighbours_of nl [a] = set nb" using nb by (rule neighbours_of_single)
    have rng1: "\<forall>e \<in> set ?h1. in_range nl (snd e)"
      using rng set_remove1_subset [of "(t, a)" heap] by blast
    have m0: "set_mset (mset heap) = set_mset (mset heap') \<union> set_mset D"
      by (simp only: m set_mset_union)
    show ?thesis
    proof (cases "(t, a) \<notin> set heap'")
      case True
      with mem m0 have inD: "(t, a) \<in># D" by auto
      with dead nbs have used: "set nb \<subseteq> set infected" by fastforce
      from inD dis have len: "real (length infected) < fmul M c (length nl)" by auto
      let ?e = "(fadd M t (fst (PoissonSample M ?G OwnDelay t a 1 s)), a)"
      have rq: "requeued M ?G heap s = ?e # ?h1" by (simp add: requeued_def e)
      have it: "async_iter M ?G nl p c infected heap s = Continue (infected, ?e # ?h1, s)"
        by (rule async_iter_used_up [OF pop nb ne used len])
      have "mset ?h1 = mset heap - {#(t, a)#}" by simp
      also have "\<dots> = mset heap' + D - {#(t, a)#}" by (simp only: m)
      also have "\<dots> = mset heap' + (D - {#(t, a)#})"
        using inD by (rule diff_union_single_conv)
      finally have "mset ?h1 = mset heap' + (D - {#(t, a)#})" .
      then have h1: "mset (?e # ?h1) = mset heap' + (D - {#(t, a)#} + {#?e#})"
        by (simp add: ac_simps)
      have h2: "\<forall>x \<in># D - {#(t, a)#} + {#?e#}.
                       neighbours_of nl [snd x] \<subseteq> set infected"
      proof
        fix x assume "x \<in># D - {#(t, a)#} + {#?e#}"
        then have "x \<in># D \<or> x = ?e" by (auto dest: in_diffD)
        then show "neighbours_of nl [snd x] \<subseteq> set infected"
        proof
          assume "x \<in># D"
          with dead show ?thesis by simp
        next
          assume "x = ?e"
          with nbs used show ?thesis by simp
        qed
      qed
      have h3: "\<forall>x \<in> set (?e # ?h1). in_range nl (snd x)"
        using rng1 ar by auto
      have "async_related M nl c (infected, ?e # ?h1, s) (infected, heap', s)"
        by (rule async_relatedI [OF h3 h1 h2 len])
      then have "async_related M nl c (infected, requeued M ?G heap s, s) (infected', heap', s')"
        using I s rq by simp
      with it rq False True e show ?thesis by simp
    next
      case inF: False
      then have memf: "(t, a) \<in> set heap'" by simp
      then have nef: "heap' \<noteq> []" by auto
      from m0 have "set heap' \<subseteq> set heap" by auto
      then have "Min (set heap) \<le> Min (set heap')"
        using nef by (intro Min_antimono) auto
      moreover have "Min (set heap') \<le> (t, a)" using memf by simp
      ultimately have ef: "Min (set heap') = (t, a)" using e by simp
      let ?f1 = "remove1 (t, a) heap'"
      have popf: "heappop heap' = Inr ((t, a), ?f1)"
        using heappop_eq [OF nef] ef by simp
      have "mset ?h1 = mset heap - {#(t, a)#}" by simp
      also have "\<dots> = D + mset heap' - {#(t, a)#}" by (simp only: m add.commute)
      also have "\<dots> = D + (mset heap' - {#(t, a)#})"
        using memf by (intro diff_union_single_conv) simp
      also have "\<dots> = mset ?f1 + D" by (simp add: add.commute)
      finally have m1: "mset ?h1 = mset ?f1 + D" .
      show ?thesis
      proof (cases "set nb \<subseteq> set infected")
        case True
        with memf nbs dis have len: "real (length infected) < fmul M c (length nl)"
          by fastforce
        define news where
          "news = [(fadd M t (fst (PoissonSample M ?G OwnDelay t a 1 s)), a)]"
        have it: "async_iter M ?G nl p c infected heap s = Continue (infected, news @ ?h1, s)"
          unfolding news_def using async_iter_used_up [OF pop nb ne True len, of U K p s]
          by simp
        have sn: "snd ` set news \<subseteq> {a}" by (simp add: news_def)
        have fit: "fast_async_iter M ?G nl p c (length nl) infected' heap' s'
                     = Continue (infected, ?f1, s)"
          using popf nb True I s by (simp add: fast_async_iter_def issubset_iff)
        have h1: "mset (news @ ?h1) = mset ?f1 + (D + mset news)"
          using m1 by simp
        have h2: "\<forall>e \<in># D + mset news. neighbours_of nl [snd e] \<subseteq> set infected"
        proof
          fix x assume "x \<in># D + mset news"
          then have "x \<in># D \<or> x \<in> set news" by auto
          then show "neighbours_of nl [snd x] \<subseteq> set infected"
          proof
            assume "x \<in># D"
            with dead show ?thesis by simp
          next
            assume "x \<in> set news"
            with sn have "snd x = a" by auto
            with nbs True show ?thesis by simp
          qed
        qed
        have h3: "\<forall>e \<in> set (news @ ?h1). in_range nl (snd e)"
          using rng1 sn ar by auto
        have "async_related M nl c (infected, news @ ?h1, s) (infected, ?f1, s)"
          by (rule async_relatedI [OF h3 h1 h2 len])
        with it fit show ?thesis by simp
      next
        case live: False
        from push_attempt_decision_result [OF nb ne, of U K p t infected s]
        obtain I2 nn where pa: "push_attempt ?G nl p t a infected s = Inr (I2, nn, s)"
          and mono: "set infected \<subseteq> set I2" and nnb: "set_option nn \<subseteq> set nb" by blast
        from reschedule_decision [of M U K t a nn s]
        obtain news where n: "\<forall>h. reschedule M ?G t a nn h s = (news @ h, s)"
          and sn: "snd ` set news \<subseteq> insert a (set_option nn)" by auto
        have it: "async_iter M ?G nl p c infected heap s =
            (if fmul M c (length nl) \<le> real (length I2) then Return t
             else Continue (I2, news @ ?h1, s))"
          using pop pa n by (simp add: async_iter_def)
        have fit: "fast_async_iter M ?G nl p c (length nl) infected' heap' s' =
            (if fmul M c (length nl) \<le> real (length I2) then Return t
             else Continue (I2, news @ ?f1, s))"
          using popf nb live pa n I s by (simp add: fast_async_iter_def issubset_iff)
        show ?thesis
        proof (cases "fmul M c (length nl) \<le> real (length I2)")
          case True
          with it fit show ?thesis by simp
        next
          case False
          have h1: "mset (news @ ?h1) = mset (news @ ?f1) + D" using m1 by simp
          have h2: "\<forall>e \<in># D. neighbours_of nl [snd e] \<subseteq> set I2"
            using dead mono by blast
          have h3: "\<forall>e \<in> set (news @ ?h1). in_range nl (snd e)"
            using rng1 sn ar nnb nbr by auto
          from False have h4: "real (length I2) < fmul M c (length nl)" by simp
          have "async_related M nl c (I2, news @ ?h1, s) (I2, news @ ?f1, s)"
            by (rule async_relatedI [OF h3 h1 h2 h4])
          with it fit False show ?thesis by simp
        qed
      qed
    qed
  qed
qed

lemma async_fast_async_returns:
  assumes wf: "wf_topology nl" and src: "in_range nl src"
    and start: "1 < fmul M c (length nl) \<or> \<not> neighbours_of nl [src] \<subseteq> {src}"
    and run: "EstimateAsynchronousGossipTime M (decision_source U K) src n nl p c s = Some y"
  shows "FastEstimateAsynchronousGossipTime M (decision_source U K) src (length nl) nl p c s
           = Some y"
proof -
  let ?G = "decision_source U K"
  obtain d where d: "PoissonSample M ?G FirstDelay (Fin 0) src 1 s = (d, s)"
    using PoissonSample_decision [of M U K FirstDelay "Fin 0" src 1 s]
    by (cases "PoissonSample M ?G FirstDelay (Fin 0) src 1 s") simp
  let ?h = "[(fadd M (Fin 0) d, src)]"
  from run d have e: "while_True (\<lambda>(infected, heap, s). async_iter M ?G nl p c infected heap s)
                        ([src], ?h, s) = Some y"
    by (simp add: EstimateAsynchronousGossipTime_def PushAsynchronousEvent_def heappush_def
        async_loop_def)
  have R: "async_related M nl c ([src], ?h, s) ([src], ?h, s)"
    unfolding async_related_def using src start
    by (simp only: prod.case) (intro conjI exI [of _ "{#}"], simp_all)
  have "while_True (\<lambda>(infected, heap, s).
            fast_async_iter M ?G nl p c (length nl) infected heap s) ([src], ?h, s) = Some y"
  proof (rule while_True_stutter [where R = "async_related M nl c", OF _ R e])
    fix a b :: "int list \<times> event list \<times> 'a"
    assume r: "async_related M nl c a b"
    obtain i h z where a: "a = (i, h, z)" by (cases a)
    obtain i' h' z' where b: "b = (i', h', z')" by (cases b)
    from async_fast_async_step [OF wf r [unfolded a b], of U K p]
    have "(\<exists>a'. async_iter M ?G nl p c i h z = Continue a' \<and> async_related M nl c a' (i', h', z'))
        \<or> rel_outcome (=) (async_related M nl c) (async_iter M ?G nl p c i h z)
             (fast_async_iter M ?G nl p c (length nl) i' h' z')"
      by blast
    then show "(\<exists>a'. (case a of (infected, heap, s) \<Rightarrow> async_iter M ?G nl p c infected heap s)
                  = Continue a' \<and> async_related M nl c a' b)
        \<or> rel_outcome (=) (async_related M nl c)
             (case a of (infected, heap, s) \<Rightarrow> async_iter M ?G nl p c infected heap s)
             (case b of (infected, heap, s) \<Rightarrow>
                fast_async_iter M ?G nl p c (length nl) infected heap s)"
      by (simp add: a b)
  qed
  with d show ?thesis
    by (simp add: FastEstimateAsynchronousGossipTime_def PushAsynchronousEvent_def heappush_def
        fast_async_loop_def)
qed

lemma PoissonSample_decision_fst:
  "fst (PoissonSample M (decision_source V L) site t a rate s) = neg_log_div M (V site t a) rate"
  by (simp add: PoissonSample_def rand_decision)

lemma Min_fst_le:
  assumes "(e :: event) \<in> set H"
  shows "fst (Min (set H)) \<le> fst e"
proof -
  from assms have "Min (set H) \<le> e" by simp
  then show ?thesis by (auto simp: less_eq_prod_def)
qed

lemma fast_async_iter_Return:
  "fast_async_iter M G nl p c n I H s = Return T \<Longrightarrow> H \<noteq> [] \<and> T = fst (Min (set H))"
proof -
  assume r: "fast_async_iter M G nl p c n I H s = Return T"
  then obtain e H1 where pop: "heappop H = Inr (e, H1)"
    by (cases "heappop H") (auto simp: fast_async_iter_def)
  from heappop_Min [OF pop] have ne: "H \<noteq> []" and e: "e = Min (set H)" by simp_all
  from r pop have "T = fst e"
    by (cases e)
      (auto simp: fast_async_iter_def split: sum.splits if_splits prod.splits)
  with ne e show ?thesis by simp
qed

lemma reschedule_times:
  assumes mono: "\<forall>site t a. site \<noteq> PushDraw \<longrightarrow> t \<le> fadd M t (neg_log_div M (V site t a) 1)"
    and rs: "reschedule M (decision_source V L) t a nn H1 s1 = (H2, s2)"
    and e: "e \<in> set H2"
  shows "e \<in> set H1 \<or> t \<le> fst e"
proof -
  let ?G = "decision_source V L"
  have m: "mset H2 = mset H1 + {#(fadd M t (fst (PoissonSample M ?G OwnDelay t a 1 s1)), a)#}
         + (case nn of None \<Rightarrow> {#}
            | Some ch \<Rightarrow> {#(fadd M t (fst (PoissonSample M ?G FirstDelay t ch 1
                                      (snd (PoissonSample M ?G OwnDelay t a 1 s1)))), ch)#})"
    using mset_reschedule [of M ?G t a nn H1 s1] rs by simp
  from e have "e \<in># mset H2" by simp
  then have "e \<in> set H1 \<or> e = (fadd M t (neg_log_div M (V OwnDelay t a) 1), a)
      \<or> (\<exists>ch. e = (fadd M t (neg_log_div M (V FirstDelay t ch) 1), ch))"
    unfolding m by (auto simp: PoissonSample_decision_fst split: option.splits)
  with mono show ?thesis by auto
qed

lemma fast_async_iter_Continue:
  assumes mono: "\<forall>site t a. site \<noteq> PushDraw \<longrightarrow> t \<le> fadd M t (neg_log_div M (V site t a) 1)"
    and it: "fast_async_iter M (decision_source V L) nl p c n I H s = Continue (I', H', s')"
  shows "H \<noteq> [] \<and> (\<forall>e \<in> set H'. fst (Min (set H)) \<le> fst e)"
proof -
  let ?G = "decision_source V L"
  from it obtain t a H1 where pop: "heappop H = Inr ((t, a), H1)"
    by (cases "heappop H") (auto simp: fast_async_iter_def)
  from heappop_Min [OF pop] have ne: "H \<noteq> []" and m: "(t, a) = Min (set H)"
    and H1: "H1 = remove1 (t, a) H" by simp_all
  have sub: "set H1 \<subseteq> set H" unfolding H1 by (rule set_remove1_subset)
  from m have tm: "fst (Min (set H)) = t" by (metis fst_conv)
  from it pop have "H' = H1 \<or> (\<exists>nn s1. reschedule M ?G t a nn H1 s1 = (H', s'))"
    by (auto simp: fast_async_iter_def split: sum.splits if_splits prod.splits)
  then have "\<forall>e \<in> set H'. e \<in> set H1 \<or> t \<le> fst e"
  proof
    assume "H' = H1"
    then show ?thesis by simp
  next
    assume "\<exists>nn s1. reschedule M ?G t a nn H1 s1 = (H', s')"
    then obtain nn s1 where rs: "reschedule M ?G t a nn H1 s1 = (H', s')" by blast
    show ?thesis using reschedule_times [OF mono rs] by blast
  qed
  then have "\<forall>e \<in> set H'. fst (Min (set H)) \<le> fst e"
    using sub Min_fst_le [of _ H] tm by auto
  with ne show ?thesis by simp
qed

lemma fast_min_le_return:
  assumes mono: "\<forall>site t a. site \<noteq> PushDraw \<longrightarrow> t \<le> fadd M t (neg_log_div M (V site t a) 1)"
  shows "iterations (\<lambda>(I, H, s). fast_async_iter M (decision_source V L) nl p c n I H s) k
           (I, H, s) = Some st'
     \<Longrightarrow> (case st' of (I, H, s) \<Rightarrow> fast_async_iter M (decision_source V L) nl p c n I H s)
           = Return T
     \<Longrightarrow> H \<noteq> [] \<and> fst (Min (set H)) \<le> T"
proof (induction k arbitrary: I H s)
  case 0
  then have "fast_async_iter M (decision_source V L) nl p c n I H s = Return T" by auto
  from fast_async_iter_Return [OF this] show ?case by simp
next
  case (Suc k)
  let ?g = "\<lambda>(I, H, s). fast_async_iter M (decision_source V L) nl p c n I H s"
  from Suc.prems(1) obtain b1 where gb: "?g (I, H, s) = Continue b1"
    and i1: "iterations ?g k b1 = Some st'"
    unfolding iterations_Suc_front by (cases "?g (I, H, s)") simp_all
  obtain I1 H1 s1 where b1: "b1 = (I1, H1, s1)" by (cases b1)
  from Suc.IH [OF i1 [unfolded b1] Suc.prems(2)]
  have ne1: "H1 \<noteq> []" and le1: "fst (Min (set H1)) \<le> T" by simp_all
  from gb b1 have "fast_async_iter M (decision_source V L) nl p c n I H s
                     = Continue (I1, H1, s1)" by simp
  from fast_async_iter_Continue [OF mono this]
  have ne: "H \<noteq> []" and all: "\<forall>e \<in> set H1. fst (Min (set H)) \<le> fst e" by simp_all
  from ne1 have "Min (set H1) \<in> set H1" by (intro Min_in) auto
  with all have "fst (Min (set H)) \<le> fst (Min (set H1))" by simp
  with le1 ne show ?case by simp
qed

lemma async_iter_nonneg:
  assumes mono: "\<forall>site t a. site \<noteq> PushDraw \<longrightarrow> t \<le> fadd M t (neg_log_div M (V site t a) 1)"
    and nn: "\<forall>e \<in> set H. Fin 0 \<le> fst e"
    and it: "async_iter M (decision_source V L) nl p c I H s = Continue (I2, H2, s2)"
  shows "\<forall>e \<in> set H2. Fin 0 \<le> fst e"
proof -
  let ?G = "decision_source V L"
  from it obtain t a H1 nw s1 where pop: "heappop H = Inr ((t, a), H1)"
    and rs: "reschedule M ?G t a nw H1 s1 = (H2, s2)"
    by (auto simp: async_iter_def split: sum.splits prod.splits if_splits)
  from heappop_Inr [OF pop] have mem: "(t, a) \<in> set H" by simp
  with nn have t: "Fin 0 \<le> t" by fastforce
  from heappop_Min [OF pop] have "H1 = remove1 (t, a) H" by simp
  then have sub: "set H1 \<subseteq> set H" by (simp add: set_remove1_subset)
  show ?thesis
  proof
    fix e assume "e \<in> set H2"
    from reschedule_times [OF mono rs this] have "e \<in> set H1 \<or> t \<le> fst e" .
    then show "Fin 0 \<le> fst e"
    proof
      assume "e \<in> set H1"
      with sub nn show ?thesis by blast
    next
      assume "t \<le> fst e"
      with t show ?thesis by (rule order_trans)
    qed
  qed
qed

lemma Fin_less: "(Fin a < Fin b) = (a < b)"
  by (auto simp: less_ftime_def)

lemma event_weight_less:
  assumes "(Fin t, a) < (Fin \<tau>, n)"
  shows "event_weight \<delta> (Fin \<tau>, n) (Fin t, a) = 1 + nat \<lfloor>(\<tau> - t) / \<delta>\<rfloor>"
  using assms by (simp only: event_weight_def if_True fst_conv prod.case ftime.case)

lemma event_weight_not_less:
  assumes "\<not> x < m"
  shows "event_weight \<delta> m x = 0"
  using assms by (simp only: event_weight_def if_False)

lemma event_weight_requeue:
  assumes d: "0 < \<delta>" and x: "t + \<delta> \<le> x" and lt: "(Fin t, a) < (Fin \<tau>, n)"
  shows "event_weight \<delta> (Fin \<tau>, n) (Fin x, a) < event_weight \<delta> (Fin \<tau>, n) (Fin t, a)"
proof (cases "(Fin x, a) < (Fin \<tau>, n)")
  case False
  then show ?thesis
    by (simp add: event_weight_not_less [OF False] event_weight_less [OF lt])
next
  case True
  then have le: "x \<le> \<tau>" by (auto simp: Fin_less)
  have "(\<tau> - x) / \<delta> = ((\<tau> - t) - (x - t)) / \<delta>" by simp
  then have "(\<tau> - x) / \<delta> = (\<tau> - t) / \<delta> - (x - t) / \<delta>"
    by (simp only: diff_divide_distrib)
  moreover have "1 \<le> (x - t) / \<delta>" using d x by simp
  ultimately have "(\<tau> - x) / \<delta> \<le> (\<tau> - t) / \<delta> - 1" by simp
  then have "\<lfloor>(\<tau> - x) / \<delta>\<rfloor> \<le> \<lfloor>(\<tau> - t) / \<delta> - 1\<rfloor>" by (rule floor_mono)
  then have f: "\<lfloor>(\<tau> - x) / \<delta>\<rfloor> \<le> \<lfloor>(\<tau> - t) / \<delta>\<rfloor> - 1" by simp
  have "0 \<le> (\<tau> - x) / \<delta>" using le d by simp
  then have "0 \<le> \<lfloor>(\<tau> - x) / \<delta>\<rfloor>" by simp
  with f have "nat \<lfloor>(\<tau> - x) / \<delta>\<rfloor> < nat \<lfloor>(\<tau> - t) / \<delta>\<rfloor>" by linarith
  then show ?thesis
    by (simp add: event_weight_less [OF True] event_weight_less [OF lt])
qed

lemma backlog_requeued:
  assumes adv: "advancing \<delta> \<tau> M V"
    and nn: "\<forall>e \<in> set heap. Fin 0 \<le> fst e"
    and ne: "heap \<noteq> []" and nef: "heap' \<noteq> []" and sub: "set heap' \<subseteq> set heap"
    and out: "Min (set heap) \<notin> set heap'"
    and ret: "fst (Min (set heap')) \<le> Fin \<tau>"
  shows "backlog \<delta> (requeued M (decision_source V L) heap s) heap' < backlog \<delta> heap heap'
     \<and> (\<forall>e \<in> set (requeued M (decision_source V L) heap s). Fin 0 \<le> fst e)"
proof -
  obtain t0 a where e: "Min (set heap) = (t0, a)" by (cases "Min (set heap)")
  have mem: "(t0, a) \<in> set heap" using Min_in [of "set heap"] ne e by auto
  obtain m0 n where m: "Min (set heap') = (m0, n)" by (cases "Min (set heap')")
  have memf: "(m0, n) \<in> set heap'" using Min_in [of "set heap'"] nef m by auto
  from ret m obtain \<tau>m where m0: "m0 = Fin \<tau>m" and tm: "\<tau>m \<le> \<tau>"
    by (cases m0) auto
  from memf sub have le: "Min (set heap) \<le> (m0, n)" by (intro Min_le) auto
  from memf out have neq: "Min (set heap) \<noteq> (m0, n)" by auto
  from le neq have lt0: "Min (set heap) < (m0, n)" by (rule le_neq_trans)
  from le e m0 have "t0 \<le> Fin \<tau>m" by (auto simp: less_eq_prod_def)
  moreover from mem nn have "Fin 0 \<le> t0" by fastforce
  ultimately obtain t where t0: "t0 = Fin t" and t: "0 \<le> t" "t \<le> \<tau>m"
    by (cases t0) auto
  from lt0 have lt: "(Fin t, a) < (Fin \<tau>m, n)" by (simp only: e t0 m0)
  from adv t tm obtain x where
    dx: "fadd M (Fin t) (neg_log_div M (V OwnDelay (Fin t) a) 1) = Fin x" and x: "t + \<delta> \<le> x"
    unfolding advancing_def by (metis call_site.distinct(1) order_trans)
  from adv have d: "0 < \<delta>" by (simp add: advancing_def)
  have rq: "requeued M (decision_source V L) heap s = (Fin x, a) # remove1 (Fin t, a) heap"
    by (simp add: requeued_def e t0 dx PoissonSample_decision_fst)
  let ?w = "event_weight \<delta> (Fin \<tau>m, n)"
  have "sum_list (map ?w heap) = ?w (Fin t, a) + sum_list (map ?w (remove1 (Fin t, a) heap))"
    using mem t0 by (intro sum_list_map_remove1) simp
  moreover have "?w (Fin x, a) < ?w (Fin t, a)"
    by (rule event_weight_requeue [OF d x lt])
  ultimately have
    "backlog \<delta> (requeued M (decision_source V L) heap s) heap' < backlog \<delta> heap heap'"
    by (simp add: backlog_def rq m m0)
  moreover have "\<forall>e \<in> set (requeued M (decision_source V L) heap s). Fin 0 \<le> fst e"
    using nn set_remove1_subset [of "(Fin t, a)" heap] t(1) x d unfolding rq by auto
  ultimately show ?thesis by simp
qed

lemma async_related_subset:
  assumes "async_related M nl c (infected, heap, s) (infected', heap', s')"
  shows "set heap' \<subseteq> set heap"
proof -
  from assms obtain D where "mset heap = mset heap' + D"
    by (auto simp: async_related_def)
  then have "set_mset (mset heap) = set_mset (mset heap') \<union> set_mset D"
    by (simp only: set_mset_union)
  then show ?thesis by auto
qed

lemma fast_async_async_returns:
  assumes wf: "wf_topology nl" and src: "in_range nl src"
    and adv: "advancing \<delta> \<tau> M V"
    and run: "FastEstimateAsynchronousGossipTime M (decision_source V L) src (length nl) nl p c s
                = Some (Inr (Fin \<tau>))"
  shows "EstimateAsynchronousGossipTime M (decision_source V L) src n nl p c s
           = Some (Inr (Fin \<tau>))"
proof -
  let ?G = "decision_source V L"
  from adv have mono:
    "\<forall>site t a. site \<noteq> PushDraw \<longrightarrow> t \<le> fadd M t (neg_log_div M (V site t a) 1)"
    by (simp add: advancing_def)
  let ?t0 = "fadd M (Fin 0) (neg_log_div M (V FirstDelay (Fin 0) src) 1)"
  have d: "PoissonSample M ?G FirstDelay (Fin 0) src 1 s
             = (neg_log_div M (V FirstDelay (Fin 0) src) 1, s)"
    by (simp add: PoissonSample_def rand_decision)
  let ?h = "[(?t0, src)]"
  from run d have fl: "fast_async_loop M ?G nl p c (length nl) [src] ?h s = Some (Inr (Fin \<tau>))"
    by (simp add: FastEstimateAsynchronousGossipTime_def PushAsynchronousEvent_def heappush_def
        Let_def)
  from wf_topology_index [OF wf src] obtain nb where nb: "py_index nl src = Inr nb" by blast
  have live: "\<not> neighbours_of nl [src] \<subseteq> set [src]"
  proof
    assume "neighbours_of nl [src] \<subseteq> set [src]"
    then have "issubset nb [src]" using neighbours_of_single [OF nb] by (simp add: issubset_iff)
    from fast_async_loop_source_used_up [OF nb this, of M ?G p c "length nl" ?t0 s] fl
    show False by simp
  qed
  from mono have t0: "Fin 0 \<le> ?t0" by simp
  let ?R = "\<lambda>a b. async_related M nl c a b \<and> (\<forall>e \<in> set (fst (snd a)). Fin 0 \<le> fst e)"
  let ?f = "\<lambda>(infected, heap, s). async_iter M ?G nl p c infected heap s"
  let ?g = "\<lambda>(infected, heap, s). fast_async_iter M ?G nl p c (length nl) infected heap s"
  let ?\<mu> = "\<lambda>(a :: int list \<times> event list \<times> 'a) (b :: int list \<times> event list \<times> 'a).
               backlog \<delta> (fst (snd a)) (fst (snd b))"
  have R0: "?R ([src], ?h, s) ([src], ?h, s)"
  proof
    show "async_related M nl c ([src], ?h, s) ([src], ?h, s)"
      unfolding async_related_def using src live
      by (simp only: prod.case) (intro conjI exI [of _ "{#}"], simp_all)
    show "\<forall>e \<in> set (fst (snd ([src], ?h, s))). Fin 0 \<le> fst e" using t0 by simp
  qed
  from fl have g: "while_True ?g ([src], ?h, s) = Some (Inr (Fin \<tau>))"
    by (simp add: fast_async_loop_def)
  have "while_True ?f ([src], ?h, s) = Some (Inr (Fin \<tau>))"
  proof (rule while_True_stutter_back [where R = ?R and \<mu> = ?\<mu> and g = ?g, OF _ R0 g])
    fix a b :: "int list \<times> event list \<times> 'a"
    assume r: "?R a b" and gr: "while_True ?g b = Some (Inr (Fin \<tau>))"
    obtain i h z where a: "a = (i, h, z)" by (cases a)
    obtain i' h' z' where b: "b = (i', h', z')" by (cases b)
    from r a b have R: "async_related M nl c (i, h, z) (i', h', z')"
      and nn: "\<forall>e \<in> set h. Fin 0 \<le> fst e" by simp_all
    from gr obtain k st' where it: "iterations ?g k (i', h', z') = Some st'"
      and rt: "?g st' = Return (Fin \<tau>)"
      unfolding while_True_returns_iff b by blast
    from fast_min_le_return [OF mono it rt]
    have nef: "h' \<noteq> []" and ret: "fst (Min (set h')) \<le> Fin \<tau>" by simp_all
    from async_fast_async_step [OF wf R, of V L p] consider
      (stutter) "h \<noteq> []" "Min (set h) \<notin> set h'"
        "async_iter M ?G nl p c i h z = Continue (i, requeued M ?G h z, z)"
        "async_related M nl c (i, requeued M ?G h z, z) (i', h', z')"
      | (lock) "rel_outcome (=) (async_related M nl c) (async_iter M ?G nl p c i h z)
                  (fast_async_iter M ?G nl p c (length nl) i' h' z')"
      by blast
    then show "(\<exists>a'. ?f a = Continue a' \<and> ?R a' b \<and> ?\<mu> a' b < ?\<mu> a b)
        \<or> rel_outcome (=) ?R (?f a) (?g b)"
    proof cases
      case stutter
      from backlog_requeued [OF adv nn stutter(1) nef async_related_subset [OF R] stutter(2) ret,
          of L z]
      have "backlog \<delta> (requeued M ?G h z) h' < backlog \<delta> h h'"
        and "\<forall>e \<in> set (requeued M ?G h z). Fin 0 \<le> fst e" by simp_all
      with stutter(3,4) have "?f a = Continue (i, requeued M ?G h z, z)
          \<and> ?R (i, requeued M ?G h z, z) b
          \<and> ?\<mu> (i, requeued M ?G h z, z) b < ?\<mu> a b"
        by (simp add: a b)
      then show ?thesis by blast
    next
      case lock
      have "rel_outcome (=) ?R (?f a) (?g b)"
      proof (cases "async_iter M ?G nl p c i h z")
        case (Raise e)
        with lock show ?thesis
          by (cases "fast_async_iter M ?G nl p c (length nl) i' h' z'") (simp_all add: a b)
      next
        case (Return t)
        with lock show ?thesis
          by (cases "fast_async_iter M ?G nl p c (length nl) i' h' z'") (simp_all add: a b)
      next
        case (Continue a')
        obtain i2 h2 z2 where a': "a' = (i2, h2, z2)" by (cases a')
        from async_iter_nonneg [OF mono nn Continue [unfolded a']]
        have "\<forall>e \<in> set h2. Fin 0 \<le> fst e" .
        with Continue lock a' show ?thesis
          by (cases "fast_async_iter M ?G nl p c (length nl) i' h' z'") (simp_all add: a b)
      qed
      then show ?thesis by blast
    qed
  qed
  with d show ?thesis
    by (simp add: EstimateAsynchronousGossipTime_def PushAsynchronousEvent_def heappush_def
        async_loop_def Let_def)
qed

subsection \<open>The exact and the fast variant compared\<close>

text \<open>
  Claim C1, as stated, fails in two ways. Fed the same sequence of draws, the two
  synchronous spreaders return different rounds on the path \<open>0 - 1 - 2\<close>: the fast one makes
  no draw for a node it has found used up, so later draws go to other decisions (the exact
  one returns 3, the fast one 2). And under a source of fixed decisions, on the graph of one
  isolated node, the exact spreader raises \<^verbatim>\<open>ValueError\<close> where the fast one returns 1.
\<close>

theorem exact_fast_differ:
  "EstimateSynchronousGossipTime ideal_machine
       (sequence_source (\<lambda>_. 1 / 2) (\<lambda>i. if i = 3 \<or> i = 9 then 1 else 0))
       0 3 [[1], [0, 2], [1]] 0 1 0 = Some (Inr 3)
   \<and> FastEstimateSynchronousGossipTime ideal_machine
       (sequence_source (\<lambda>_. 1 / 2) (\<lambda>i. if i = 3 \<or> i = 9 then 1 else 0))
       0 3 [[1], [0, 2], [1]] 0 1 0 = Some (Inr 2)
   \<and> EstimateSynchronousGossipTime ideal_machine (decision_source (\<lambda>_ _ _. 1 / 2) (\<lambda>_ _. 0))
       0 1 [[]] 0 1 () = Some (Inl ValueError)
   \<and> FastEstimateSynchronousGossipTime ideal_machine (decision_source (\<lambda>_ _ _. 1 / 2) (\<lambda>_ _. 0))
       0 1 [[]] 0 1 () = Some (Inr 1)"
  by (simp add: estimate_defs run_defs)

text \<open>
  Claim C1, amended: let every adjacency list be non-empty and name only nodes
  \<open>0, \<dots>, N - 1\<close>, let the source be one of these nodes, and let every random decision be a
  function of its logical position (call site, round or event time, node). Then, on every
  machine and whatever the orders in which the two spreaders visit their sets, the exact
  and the fast synchronous spreader have the same outcome, the same returned round
  included. If moreover \<^verbatim>\<open>number_of_nodes\<close> is the number of adjacency lists, and the
  source alone does not meet the computed threshold or has a neighbour other than itself,
  then whenever the exact asynchronous spreader returns a time, the fast one returns the
  same time. Conversely, if \<^verbatim>\<open>number_of_nodes\<close> is the number of adjacency lists and the
  fast asynchronous spreader returns a finite time \<open>\<tau>\<close>, then the exact one returns the
  same time, provided that time advances on the machine: no new event is earlier than the
  event that schedules it, and up to \<open>\<tau>\<close> every new event is later by at least some
  \<open>\<delta> > 0\<close>.
\<close>

theorem exact_fast_same_decisions:
  assumes "wf_topology neighbor_list" and "in_range neighbor_list source_node"
  shows "EstimateSynchronousGossipTime M (decision_source U K) source_node number_of_nodes
           neighbor_list failure_probability end_criteria s
         = FastEstimateSynchronousGossipTime (M\<lparr>slot := sl\<rparr>) (decision_source U K)
             source_node number_of_nodes neighbor_list failure_probability end_criteria s
     \<and> (number_of_nodes = length neighbor_list
          \<and> (1 < fmul M end_criteria (length neighbor_list)
               \<or> \<not> neighbours_of neighbor_list [source_node] \<subseteq> {source_node})
          \<and> EstimateAsynchronousGossipTime M (decision_source V L) source_node number_of_nodes
                neighbor_list failure_probability end_criteria z = Some (Inr time)
          \<longrightarrow> FastEstimateAsynchronousGossipTime M (decision_source V L) source_node
                number_of_nodes neighbor_list failure_probability end_criteria z
                = Some (Inr time))
     \<and> (number_of_nodes = length neighbor_list \<and> advancing \<delta> \<tau> M V
          \<and> FastEstimateAsynchronousGossipTime M (decision_source V L) source_node
                number_of_nodes neighbor_list failure_probability end_criteria z
                = Some (Inr (Fin \<tau>))
          \<longrightarrow> EstimateAsynchronousGossipTime M (decision_source V L) source_node number_of_nodes
                neighbor_list failure_probability end_criteria z = Some (Inr (Fin \<tau>)))"
proof (intro conjI impI)
  have "fmul (M\<lparr>slot := sl\<rparr>) = fmul M" by simp
  then show "EstimateSynchronousGossipTime M (decision_source U K) source_node number_of_nodes
           neighbor_list failure_probability end_criteria s
         = FastEstimateSynchronousGossipTime (M\<lparr>slot := sl\<rparr>) (decision_source U K)
             source_node number_of_nodes neighbor_list failure_probability end_criteria s"
    unfolding EstimateSynchronousGossipTime_def FastEstimateSynchronousGossipTime_def
    by (rule sync_fast_sync_equal [OF assms])
next
  assume h: "number_of_nodes = length neighbor_list
          \<and> (1 < fmul M end_criteria (length neighbor_list)
               \<or> \<not> neighbours_of neighbor_list [source_node] \<subseteq> {source_node})
          \<and> EstimateAsynchronousGossipTime M (decision_source V L) source_node number_of_nodes
                neighbor_list failure_probability end_criteria z = Some (Inr time)"
  then have n: "number_of_nodes = length neighbor_list"
    and st: "1 < fmul M end_criteria (length neighbor_list)
               \<or> \<not> neighbours_of neighbor_list [source_node] \<subseteq> {source_node}"
    and run: "EstimateAsynchronousGossipTime M (decision_source V L) source_node number_of_nodes
                neighbor_list failure_probability end_criteria z = Some (Inr time)"
    by blast+
  from async_fast_async_returns [OF assms st run]
  show "FastEstimateAsynchronousGossipTime M (decision_source V L) source_node
                number_of_nodes neighbor_list failure_probability end_criteria z
                = Some (Inr time)"
    by (simp add: n)
next
  assume h: "number_of_nodes = length neighbor_list \<and> advancing \<delta> \<tau> M V
          \<and> FastEstimateAsynchronousGossipTime M (decision_source V L) source_node
                number_of_nodes neighbor_list failure_probability end_criteria z
                = Some (Inr (Fin \<tau>))"
  then have adv: "advancing \<delta> \<tau> M V"
    and run: "FastEstimateAsynchronousGossipTime M (decision_source V L) source_node
                (length neighbor_list) neighbor_list failure_probability end_criteria z
                = Some (Inr (Fin \<tau>))"
    by blast+
  show "EstimateAsynchronousGossipTime M (decision_source V L) source_node number_of_nodes
                neighbor_list failure_probability end_criteria z = Some (Inr (Fin \<tau>))"
    by (rule fast_async_async_returns [OF assms adv run])
qed

theorem exact_fast_same_decisions_witness:
  "wf_topology [[1], [0, 2], [1]] \<and> in_range [[1], [0, 2], [1]] 0
   \<and> (3 :: nat) = length [[1], [0, 2], [1 :: int]]
   \<and> 1 < fmul ideal_machine 1 (length [[1], [0, 2], [1 :: int]])
   \<and> advancing 1 2 ideal_machine (\<lambda>_ _ _. exp (- 1))
   \<and> EstimateAsynchronousGossipTime ideal_machine
        (decision_source (\<lambda>_ _ _. exp (- 1)) (\<lambda>_ _. 1))
        0 3 [[1], [0, 2], [1]] 0 1 () = Some (Inr (Fin 2))
   \<and> FastEstimateAsynchronousGossipTime ideal_machine
        (decision_source (\<lambda>_ _ _. exp (- 1)) (\<lambda>_ _. 1))
        0 3 [[1], [0, 2], [1]] 0 1 () = Some (Inr (Fin 2))
   \<and> FastEstimateSynchronousGossipTime (ideal_machine\<lparr>slot := \<lambda>t x. nat (2 - x)\<rparr>)
        (decision_source (\<lambda>_ _ _. 1 / 2) (\<lambda>_ _. 1))
        0 3 [[1], [0, 2], [1]] 0 1 () = Some (Inr 2)"
proof -
  have a: "wf_topology [[1], [0, 2], [1]]" by (simp add: wf_topology_def)
  have b: "in_range [[1], [0, 2], [1]] 0" by (simp add: in_range_def)
  have c: "(3 :: nat) = length [[1], [0, 2], [1 :: int]]" by simp
  have d: "1 < fmul ideal_machine 1 (length [[1], [0, 2], [1 :: int]])"
    by (simp add: ideal_fmul)
  have e: "EstimateAsynchronousGossipTime ideal_machine
        (decision_source (\<lambda>_ _ _. exp (- 1)) (\<lambda>_ _. 1))
        0 3 [[1], [0, 2], [1]] 0 1 () = Some (Inr (Fin 2))"
    by (simp add: estimate_defs run_defs)
  have f: "EstimateSynchronousGossipTime ideal_machine
        (decision_source (\<lambda>_ _ _. 1 / 2) (\<lambda>_ _. 1))
        0 3 [[1], [0, 2], [1]] 0 1 () = Some (Inr 2)"
    by (simp add: estimate_defs run_defs)
  have mono: "t \<le> time_add t (Fin 1)" for t
    by (cases t) simp_all
  have dl: "advancing 1 2 ideal_machine (\<lambda>_ _ _. exp (- 1))"
    by (simp add: advancing_def ideal_fadd ideal_neg_log_div mono)
  note th = exact_fast_same_decisions [OF a b,
      where M = ideal_machine and U = "\<lambda>_ _ _. 1 / 2" and K = "\<lambda>_ _. 1"
        and sl = "\<lambda>t x. nat (2 - x)" and number_of_nodes = 3
        and failure_probability = 0 and end_criteria = 1 and s = "()" and z = "()"
        and V = "\<lambda>_ _ _. exp (- 1)" and L = "\<lambda>_ _. 1" and time = "Fin 2"
        and \<delta> = 1 and \<tau> = 2]
  from th f have g: "FastEstimateSynchronousGossipTime
        (ideal_machine\<lparr>slot := \<lambda>t x. nat (2 - x)\<rparr>)
        (decision_source (\<lambda>_ _ _. 1 / 2) (\<lambda>_ _. 1)) 0 3 [[1], [0, 2], [1]] 0 1 ()
        = Some (Inr 2)"
    by simp
  from th c d e have h: "FastEstimateAsynchronousGossipTime ideal_machine
        (decision_source (\<lambda>_ _ _. exp (- 1)) (\<lambda>_ _. 1)) 0 3 [[1], [0, 2], [1]] 0 1 ()
        = Some (Inr (Fin 2))"
    by blast
  from th c dl h have "EstimateAsynchronousGossipTime ideal_machine
        (decision_source (\<lambda>_ _ _. exp (- 1)) (\<lambda>_ _. 1)) 0 3 [[1], [0, 2], [1]] 0 1 ()
        = Some (Inr (Fin 2))"
    by blast
  with a b c d dl g h show ?thesis by blast
qed

section \<open>The frontier of the fast synchronous spreader\<close>

text \<open>
  At a round boundary the frontier is a subset of the infected set, for every random
  source.
\<close>

lemma fast_sync_round_newly:
  "fast_sync_round G nl p t as infected useless newly s = Inr (infected', useless', newly', s')
   \<Longrightarrow> set newly \<subseteq> set infected \<Longrightarrow> set newly' \<subseteq> set infected'"
proof (induction as arbitrary: infected useless newly s)
  case Nil
  then show ?case by simp
next
  case (Cons a as)
  from Cons.prems(1) obtain nb where nb: "py_index nl a = Inr nb"
    by (auto split: sum.splits)
  show ?case
  proof (cases "issubset nb infected")
    case True
    with Cons.prems nb have
      "fast_sync_round G nl p t as infected (set_add a useless) newly s
         = Inr (infected', useless', newly', s')" by simp
    from Cons.IH [OF this Cons.prems(2)] show ?thesis .
  next
    case False
    obtain u s1 where r: "rand G PushDraw t a s = (u, s1)" by (cases "rand G PushDraw t a s")
    show ?thesis
    proof (cases "p \<le> u")
      case no: False
      with Cons.prems nb False r have
        "fast_sync_round G nl p t as infected useless newly s1
           = Inr (infected', useless', newly', s')" by simp
      from Cons.IH [OF this Cons.prems(2)] show ?thesis .
    next
      case True
      with Cons.prems nb False r obtain chosen s2 where
        rest: "fast_sync_round G nl p t as (set_add chosen infected) useless
                 (set_add chosen newly) s2 = Inr (infected', useless', newly', s')"
        by (auto split: sum.splits)
      have "set (set_add chosen newly) \<subseteq> set (set_add chosen infected)"
        using Cons.prems(2) by (auto simp: set_set_add)
      from Cons.IH [OF rest this] show ?thesis .
    qed
  qed
qed

lemma fast_sync_frontier_subset:
  assumes "fast_sync_iter M G nl p c t infected useful s = Continue (t', infected', useful', s')"
    and "set useful \<subseteq> set infected"
  shows "set useful' \<subseteq> set infected'"
proof -
  from assms(1) obtain useless newly where
    r: "fast_sync_round G nl p t (set_order M t useful) infected [] [] s
          = Inr (infected', useless, newly, s')"
    and u: "useful' = set_difference (set_union useful newly) useless"
    by (auto simp: fast_sync_iter_def Let_def split: sum.splits if_splits)
  from fast_sync_round_newly [OF r] have "set newly \<subseteq> set infected'" by simp
  moreover from fast_sync_round_mono [OF r] have "set infected \<subseteq> set infected'" by simp
  ultimately show ?thesis
    using assms(2) by (auto simp: u set_set_difference set_set_union)
qed

text \<open>
  Claim C6 says that a node removed from the frontier is never considered again. On the
  path \<open>0 - 1 - 2\<close> with source 0, when node 1 keeps choosing node 0: node 0 is removed
  from the frontier in the second round (it is absent at the boundary of round 2), put
  back by the third round, in which node 1 chooses it, and examined and removed again in
  the fourth. The code adds every chosen node to \<^verbatim>\<open>newly_infected_node_set\<close>, infected
  before or not, and unites this set with the frontier.
\<close>

theorem frontier_reentry:
  "fast_sync_iter ideal_machine (decision_source (\<lambda>_ _ _. 1 / 2) (\<lambda>_ _. 0)) [[1], [0, 2], [1]] 0 1
       0 [0] [0] () = Continue (1, [0, 1], [0, 1], ())
   \<and> fast_sync_iter ideal_machine (decision_source (\<lambda>_ _ _. 1 / 2) (\<lambda>_ _. 0)) [[1], [0, 2], [1]] 0 1
       1 [0, 1] [0, 1] () = Continue (2, [0, 1], [1], ())
   \<and> fast_sync_iter ideal_machine (decision_source (\<lambda>_ _ _. 1 / 2) (\<lambda>_ _. 0)) [[1], [0, 2], [1]] 0 1
       2 [0, 1] [1] () = Continue (3, [0, 1], [1, 0], ())
   \<and> fast_sync_iter ideal_machine (decision_source (\<lambda>_ _ _. 1 / 2) (\<lambda>_ _. 0)) [[1], [0, 2], [1]] 0 1
       3 [0, 1] [1, 0] () = Continue (4, [0, 1], [1], ())"
  by (simp add: run_defs)

end
